theory Spec2Isabelle
  imports
    Complex_Main
    "HOL-Library.Finite_Map"
    "HOL-Library.Multiset"
    "HOL-Library.Char_ord"
    "HOL-Library.List_Lexorder"
begin

section \<open>The vector engine of the simulator (vector\_engine.hpp)\<close>

text \<open>
  The engine collects, shot after shot, quantities derived from the snapshots of the
  state vector, merges the results of several engines and writes them to a document.

  Conventions of the embedding.
  \<^item> \<open>double\<close> is \<^typ>\<open>real\<close> and \<open>complex_t\<close> is \<^typ>\<open>complex\<close>. Arithmetic is exact,
    but in the subsection on the sums in double arithmetic, where every operation is
    rounded to a double: the claim on merging depends on the rounding.
  \<^item> \<open>uint_t\<close> is \<^typ>\<open>nat\<close>: labels are only compared, sizes are only counted.
  \<^item> \<open>std::map\<close> is a finite map (\<^typ>\<open>('k, 'v) fmap\<close>); a range-for over a map visits
    its entries by ascending key, which is \<^const>\<open>sorted_list_of_fmap\<close>.
  \<^item> \<open>std::vector\<close> is a list, \<open>push_back\<close> appends at the end.
  \<^item> A \<open>throw\<close> is a value: a function that can throw returns \<open>Inl\<close> of the error
    together with the engine as it is at the throw, and \<open>Inr\<close> of the engine otherwise.
\<close>

type_synonym uint_t = nat
type_synonym complex_t = complex
type_synonym cvector_t = "complex list"
type_synonym rvector_t = "real list"
type_synonym cmatrix_t = "complex list list"
type_synonym cket_t = "(string, complex) fmap"
type_synonym rket_t = "(string, real) fmap"

text \<open>A \<open>QubitVector\<close> is used through its amplitudes (\<open>vector()\<close>) and their number
  (\<open>size()\<close>) only; it is the list of its amplitudes.\<close>

type_synonym QubitVector = cvector_t

subsection \<open>Helpers of misc.hpp, matrix.hpp and qubit\_vector.hpp\<close>

text \<open>\<open>m[k]\<close> on a \<open>std::map\<close>: the entry of \<open>k\<close>, default-constructed (\<open>d\<close>) when
  there is none yet.\<close>

definition map_at :: "('k, 'v) fmap \<Rightarrow> 'k \<Rightarrow> 'v \<Rightarrow> 'v" where
  "map_at m k d = (case fmlookup m k of None \<Rightarrow> d | Some v \<Rightarrow> v)"

text \<open>Modelled from the spec: \<open>chop\<close> of a real number (misc.hpp is not among the sources). The spec:
  any real or imaginary component, or probability, whose absolute value is smaller than
  the threshold is forced to exactly zero; components at or above it are unchanged. The
  calls in the engine use it both as a statement and for its result, so it changes its
  argument in place and returns it.\<close>

definition chop_real :: "real \<Rightarrow> real \<Rightarrow> real" where
  "chop_real eps x = (if \<bar>x\<bar> < eps then 0 else x)"

text \<open>Modelled from the spec: \<open>chop\<close> of a complex number (misc.hpp): its real and its imaginary part are chopped.\<close>

definition chop_complex :: "real \<Rightarrow> complex \<Rightarrow> complex" where
  "chop_complex eps z = Complex (chop_real eps (Re z)) (chop_real eps (Im z))"

text \<open>Modelled from the spec: \<open>chop\<close> of a real vector (misc.hpp): elementwise.\<close>

definition chop_rvector :: "real \<Rightarrow> rvector_t \<Rightarrow> rvector_t" where
  "chop_rvector eps v = map (chop_real eps) v"

text \<open>Modelled from the spec: \<open>chop\<close> of a complex vector (misc.hpp): elementwise.\<close>

definition chop_cvector :: "real \<Rightarrow> cvector_t \<Rightarrow> cvector_t" where
  "chop_cvector eps v = map (chop_complex eps) v"

text \<open>Modelled from the spec: \<open>chop\<close> of a complex matrix (misc.hpp, matrix.hpp): elementwise.\<close>

definition chop_cmatrix :: "real \<Rightarrow> cmatrix_t \<Rightarrow> cmatrix_t" where
  "chop_cmatrix eps m = map (map (chop_complex eps)) m"

text \<open>Modelled from the spec: \<open>chop\<close> of a map of reals (misc.hpp): value by value.\<close>

definition chop_rket :: "real \<Rightarrow> rket_t \<Rightarrow> rket_t" where
  "chop_rket eps m = fmmap (chop_real eps) m"

text \<open>Modelled from the spec: \<open>operator+=\<close> on \<open>std::vector\<close> (misc.hpp is not among
  the sources). The spec: sums are added elementwise,
  creating entries on first encounter; an entry seen for the first time starts from a
  zero. The engine adds to default-constructed (empty) vectors, so an empty left operand
  takes the right one. For two non-empty vectors of different lengths neither the
  sources nor the spec say what happens: the model adds up to the shorter length, and
  no theorem below relies on that case.\<close>

definition vector_add :: "rvector_t \<Rightarrow> rvector_t \<Rightarrow> rvector_t" where
  "vector_add lhs rhs = (if lhs = [] then rhs else map2 (+) lhs rhs)"

text \<open>Modelled from the spec: \<open>operator*\<close> and \<open>operator*=\<close> of a vector and a number (misc.hpp): summed quantities are multiplied, elementwise, by one over the number of shots.\<close>

definition vector_scale :: "rvector_t \<Rightarrow> real \<Rightarrow> rvector_t" where
  "vector_scale v c = map (\<lambda>x. x * c) v"

text \<open>Modelled from the spec: \<open>operator+=\<close> on maps (misc.hpp): the values of the right map are added to the values of the left map, key by key, a new key starting from zero.\<close>

definition rket_add :: "rket_t \<Rightarrow> rket_t \<Rightarrow> rket_t" where
  "rket_add lhs rhs =
     fold (\<lambda>(k, v) m. fmupd k (map_at m k 0 + v) m) (sorted_list_of_fmap rhs) lhs"

text \<open>Modelled from the spec: \<open>operator*\<close> of a map and a number (misc.hpp): value by value.\<close>

definition rket_scale :: "rket_t \<Rightarrow> real \<Rightarrow> rket_t" where
  "rket_scale m c = fmmap (\<lambda>x. x * c) m"

text \<open>Modelled from the spec: \<open>size()\<close> of the matrix class (matrix.hpp is not among the
  sources). The spec: a density sum is a square complex matrix, accumulated as the sum
  of the outer products of the amplitude vector with its own conjugate. A matrix is
  the list of its rows, \<open>size()\<close> is the number of its elements.\<close>

definition matrix_size :: "cmatrix_t \<Rightarrow> nat" where
  "matrix_size m = length (concat m)"

text \<open>Modelled from the spec: \<open>operator+\<close> and \<open>operator+=\<close> of the matrix class (matrix.hpp): elementwise. For matrices of different dimensions neither the sources nor the spec say what happens: the model adds up to the smaller dimensions, and no theorem below relies on that case.\<close>

definition matrix_add :: "cmatrix_t \<Rightarrow> cmatrix_t \<Rightarrow> cmatrix_t" where
  "matrix_add a b = map2 (map2 (+)) a b"

text \<open>Modelled from the spec: \<open>operator*\<close> of a matrix and a number (matrix.hpp): elementwise.\<close>

definition matrix_scale :: "cmatrix_t \<Rightarrow> real \<Rightarrow> cmatrix_t" where
  "matrix_scale m c = map (map (\<lambda>z. z * complex_of_real c)) m"

text \<open>Modelled from the spec: \<open>outer_product\<close> (misc.hpp or matrix.hpp): the outer product of a vector with the conjugate of a vector.\<close>

definition outer_product :: "cvector_t \<Rightarrow> cvector_t \<Rightarrow> cmatrix_t" where
  "outer_product u v = map (\<lambda>a. map (\<lambda>b. a * cnj b) v) u"

text \<open>Modelled from the spec: \<open>QubitVector::inner_product\<close> (qubit\_vector.hpp is not
  among the sources). The spec: the inner product is snapshot times conjugated target.\<close>

definition inner_product :: "QubitVector \<Rightarrow> QubitVector \<Rightarrow> complex_t" where
  "inner_product psi vec = sum_list (map2 (\<lambda>a b. a * cnj b) psi vec)"

subsection \<open>The engine\<close>

record VectorEngine =
  total_shots :: uint_t
  qudit_dim :: uint_t
  epsilon :: real
  show_snapshots_ket :: bool
  show_snapshots_density :: bool
  show_snapshots_probs :: bool
  show_snapshots_probs_ket :: bool
  show_snapshots_inner_product :: bool
  show_snapshots_overlaps :: bool
  target_states :: "QubitVector list"
  snapshots_ket :: "(uint_t, cket_t) fmap list"
  snapshots_density :: "(uint_t, cmatrix_t) fmap"
  snapshots_probs :: "(uint_t, rvector_t) fmap"
  snapshots_probs_ket :: "(uint_t, rket_t) fmap"
  snapshots_inprods :: "(uint_t, cvector_t list) fmap"
  snapshots_overlaps :: "(uint_t, rvector_t) fmap"

text \<open>\<open>total_shots\<close> is the one member of the base class \<open>BaseEngine\<close> that the code
  below reads. The base class (base\_engine.hpp) is not among the sources: its own
  \<open>add\<close>, \<open>compute_results\<close>, \<open>to_json\<close> and \<open>from_json\<close>, which the methods of the
  engine call first, cannot reach the members declared here and are left out.\<close>

text \<open>The default constructor \<open>VectorEngine(dim = 2)\<close> with the member initialisers.\<close>

definition VectorEngine_new :: "uint_t \<Rightarrow> VectorEngine" where
  "VectorEngine_new d =
     \<lparr> total_shots = 0, qudit_dim = d, epsilon = 1 / 10 ^ 10,
       show_snapshots_ket = False, show_snapshots_density = False,
       show_snapshots_probs = False, show_snapshots_probs_ket = False,
       show_snapshots_inner_product = False, show_snapshots_overlaps = False,
       target_states = [],
       snapshots_ket = [], snapshots_density = fmempty, snapshots_probs = fmempty,
       snapshots_probs_ket = fmempty, snapshots_inprods = fmempty,
       snapshots_overlaps = fmempty \<rparr>"

subsection \<open>Merging: \<open>VectorEngine::add\<close>\<close>

text \<open>Every loop of \<open>add\<close> runs over the entries \<open>s\<close> of a map of the other engine and
  changes the entry \<open>s.first\<close> of the same map of this engine; the loops of
  \<open>compute_results\<close> over the snapshots of a shot have the same shape. Here \<open>f\<close> is
  the body: it gets the entry of this engine (default-constructed as \<open>d\<close> when new) and
  the value of the visited entry, and gives the new entry.\<close>

definition add_entries ::
  "('v \<Rightarrow> 'w \<Rightarrow> 'v) \<Rightarrow> 'v \<Rightarrow> (uint_t, 'w) fmap \<Rightarrow> (uint_t, 'v) fmap \<Rightarrow> (uint_t, 'v) fmap" where
  "add_entries f d other mine =
     fold (\<lambda>(k, v) m. fmupd k (f (map_at m k d) v) m) (sorted_list_of_fmap other) mine"

text \<open>\<open>if (rho.size() == 0) rho = s.second; else rho += s.second;\<close>\<close>

definition density_add :: "cmatrix_t \<Rightarrow> cmatrix_t \<Rightarrow> cmatrix_t" where
  "density_add rho m = (if matrix_size rho = 0 then m else matrix_add rho m)"

text \<open>\<open>this->add(eng)\<close>. The two engines are different objects.\<close>

definition VectorEngine_add :: "VectorEngine \<Rightarrow> VectorEngine \<Rightarrow> VectorEngine" where
  "VectorEngine_add this eng =
     this\<lparr> snapshots_ket := snapshots_ket this @ snapshots_ket eng,
           snapshots_density :=
             add_entries density_add [] (snapshots_density eng) (snapshots_density this),
           snapshots_probs :=
             add_entries vector_add [] (snapshots_probs eng) (snapshots_probs this),
           snapshots_probs_ket :=
             add_entries rket_add fmempty (snapshots_probs_ket eng) (snapshots_probs_ket this),
           snapshots_overlaps :=
             add_entries vector_add [] (snapshots_overlaps eng) (snapshots_overlaps this),
           snapshots_inprods :=
             add_entries (\<lambda>mine theirs. mine @ theirs) [] (snapshots_inprods eng)
               (snapshots_inprods this) \<rparr>"


subsection \<open>One shot: \<open>VectorEngine::compute_results\<close>\<close>

text \<open>What a call \<open>compute_results(qasm, be)\<close> reads:
  \<^item> \<open>qubit_sizes\<close>: \<open>qasm.qubit_sizes\<close>, the registers with their sizes, in their order;
  \<^item> \<open>qreg\<close>: \<open>be->access_qreg()\<close>, the working state vector;
  \<^item> \<open>qreg_snapshots\<close>: \<open>be->access_snapshots()\<close>, the snapshots taken in this shot;
  \<^item> \<open>snapshots_empty\<close>: the value of \<open>snapshots.empty()\<close> at the guard of the snapshot
    block. \<open>snapshots\<close> is a member of the base class, which is not among the sources
    and which the base method has just updated for this shot; the spec reads the guard
    as "there are no captured snapshots for the shot". Its value is an input of the call.\<close>

record Shot =
  qubit_sizes :: "(string \<times> uint_t) list"
  qreg :: QubitVector
  qreg_snapshots :: "(uint_t, QubitVector) fmap"
  snapshots_empty :: bool

text \<open>The one error the engine raises: a \<open>std::runtime_error\<close> whose message holds
  \<open>vec.size()\<close> and \<open>nstates\<close>, in this order.\<close>

datatype error = TargetStateSize uint_t uint_t

text \<open>\<open>vec2ket\<close> (misc.hpp, not among the sources) is a parameter of the model: a function
  of the amplitudes, the qudit dimension, the threshold and the register sizes.\<close>

type_synonym vec2ket_t = "cvector_t \<Rightarrow> uint_t \<Rightarrow> real \<Rightarrow> uint_t list \<Rightarrow> cket_t"

definition get_probs :: "complex_t \<Rightarrow> real" where
  "get_probs val = Re (cnj val * val)"

definition get_probs_vec :: "QubitVector \<Rightarrow> rvector_t" where
  "get_probs_vec vec = fold (\<lambda>elt ret. ret @ [get_probs elt]) vec []"

definition get_probs_ket :: "cket_t \<Rightarrow> rket_t" where
  "get_probs_ket ket =
     fold (\<lambda>(k, elt) ret. fmupd k (get_probs elt) ret) (sorted_list_of_fmap ket) fmempty"

text \<open>The block "Ket form": the map \<open>km\<close> of the kets of the snapshots, pushed to
  \<open>snapshots_ket\<close> and added, as probabilities, to \<open>snapshots_probs_ket\<close>.\<close>

definition compute_ket :: "vec2ket_t \<Rightarrow> uint_t list \<Rightarrow> Shot \<Rightarrow> VectorEngine \<Rightarrow> VectorEngine" where
  "compute_ket vec2ket regs s this =
     (if show_snapshots_ket this \<or> show_snapshots_probs_ket this then
        let km = add_entries (\<lambda>_ psi. vec2ket psi (qudit_dim this) (epsilon this) regs)
                   fmempty (qreg_snapshots s) fmempty;
            this1 = (if show_snapshots_ket this
                     then this\<lparr>snapshots_ket := snapshots_ket this @ [km]\<rparr> else this)
        in if show_snapshots_probs_ket this1
           then this1\<lparr>snapshots_probs_ket :=
                  add_entries
                    (\<lambda>mine ket.
                       let tmp = fold (\<lambda>(k, val) tmp. fmupd k (get_probs val) tmp)
                                   (sorted_list_of_fmap ket) fmempty
                       in rket_add mine tmp)
                    fmempty km (snapshots_probs_ket this1)\<rparr>
           else this1
      else this)"

text \<open>The block "add density matrix".\<close>

definition compute_density :: "Shot \<Rightarrow> VectorEngine \<Rightarrow> VectorEngine" where
  "compute_density s this =
     (if show_snapshots_density this then
        this\<lparr>snapshots_density :=
          add_entries
            (\<lambda>rho psi. if matrix_size rho = 0 then outer_product psi psi
                        else matrix_add rho (outer_product psi psi))
            [] (qreg_snapshots s) (snapshots_density this)\<rparr>
      else this)"

text \<open>The block "add probs".\<close>

definition compute_probs :: "Shot \<Rightarrow> VectorEngine \<Rightarrow> VectorEngine" where
  "compute_probs s this =
     (if show_snapshots_probs this then
        this\<lparr>snapshots_probs :=
          add_entries
            (\<lambda>pr psi. if pr = [] then get_probs_vec psi
                       else vector_add pr (get_probs_vec psi))
            [] (qreg_snapshots s) (snapshots_probs this)\<rparr>
      else this)"

text \<open>The block "Inner products". The inner loop over the target states of one
  snapshot: it throws at the first target state of another size, before anything of
  this snapshot is stored.\<close>

fun compute_inprods ::
  "real \<Rightarrow> uint_t \<Rightarrow> QubitVector \<Rightarrow> QubitVector list \<Rightarrow> cvector_t \<Rightarrow> error + cvector_t" where
  "compute_inprods eps nstates psi [] inprods = Inr inprods"
| "compute_inprods eps nstates psi (vec # vecs) inprods =
     (if length vec \<noteq> length psi then Inl (TargetStateSize (length vec) nstates)
      else compute_inprods eps nstates psi vecs
             (inprods @ [chop_complex eps (inner_product psi vec)]))"

text \<open>The end of the body of the outer loop: "add output inner products" and "Add
  output overlaps" for the snapshot \<open>label\<close>.\<close>

definition store_inprods :: "uint_t \<Rightarrow> cvector_t \<Rightarrow> VectorEngine \<Rightarrow> VectorEngine" where
  "store_inprods label inprods this =
     (let this1 = (if show_snapshots_inner_product this
                   then this\<lparr>snapshots_inprods :=
                          fmupd label (map_at (snapshots_inprods this) label [] @ [inprods])
                            (snapshots_inprods this)\<rparr>
                   else this)
      in if show_snapshots_overlaps this1
         then this1\<lparr>snapshots_overlaps :=
                fmupd label
                  (vector_add (map_at (snapshots_overlaps this1) label [])
                     (get_probs_vec inprods))
                  (snapshots_overlaps this1)\<rparr>
         else this1)"

text \<open>The outer loop over the snapshots of the shot, by ascending label.\<close>

fun compute_inner ::
  "uint_t \<Rightarrow> (uint_t \<times> QubitVector) list \<Rightarrow> VectorEngine \<Rightarrow> (error \<times> VectorEngine) + VectorEngine" where
  "compute_inner nstates [] this = Inr this"
| "compute_inner nstates ((label, psi) # rest) this =
     (case compute_inprods (epsilon this) nstates psi (target_states this) [] of
        Inl err \<Rightarrow> Inl (err, this)
      | Inr inprods \<Rightarrow> compute_inner nstates rest (store_inprods label inprods this))"

definition compute_results ::
  "vec2ket_t \<Rightarrow> Shot \<Rightarrow> VectorEngine \<Rightarrow> (error \<times> VectorEngine) + VectorEngine" where
  "compute_results vec2ket s this =
     (let ket_form = (show_snapshots_ket this \<or> show_snapshots_probs_ket this);
          regs = (if ket_form then map snd (rev (qubit_sizes s)) else [])
      in if \<not> snapshots_empty s then
           let this1 = compute_ket vec2ket regs s this;
               this2 = compute_density s this1;
               this3 = compute_probs s this2
           in if target_states this3 \<noteq> [] \<and>
                 (show_snapshots_inner_product this3 \<or> show_snapshots_overlaps this3)
              then compute_inner (length (qreg s)) (sorted_list_of_fmap (qreg_snapshots s)) this3
              else Inr this3
         else Inr this)"

subsection \<open>Writing the results: \<open>to_json\<close>\<close>

text \<open>The fields of the document that \<open>to_json\<close> of the engine writes; \<open>None\<close> is a field
  that is not in the document.\<close>

record json_t =
  quantum_state_ket :: "(uint_t, cket_t) fmap list option"
  density_matrix :: "(uint_t, cmatrix_t) fmap option"
  probabilities :: "(uint_t, rvector_t) fmap option"
  probabilities_ket :: "(uint_t, rket_t) fmap option"
  inner_products :: "(uint_t, cvector_t list) fmap option"
  overlaps :: "(uint_t, rvector_t) fmap option"

text \<open>The loop \<open>for (auto &s : tmp) tmp[s.first] = ...\<close> over a local copy: it visits the
  keys of the copy and replaces the entry it is at.\<close>

definition update_in_place :: "('v \<Rightarrow> 'v) \<Rightarrow> (uint_t, 'v) fmap \<Rightarrow> (uint_t, 'v) fmap" where
  "update_in_place f tmp =
     fold (\<lambda>k m. case fmlookup m k of None \<Rightarrow> m | Some v \<Rightarrow> fmupd k (f v) m)
       (sorted_list_of_fset (fmdom tmp)) tmp"

text \<open>The objects that a call \<open>to_json(js, eng)\<close> works on. \<open>js\<close> is a reference to the
  document of the caller and \<open>eng\<close> a constant reference to the engine of the caller, so
  both are the caller's objects; \<open>renorm\<close>, \<open>rhos\<close>, the two \<open>ret\<close> and the two \<open>tmp\<close> are
  the local variables of the body (a local map is empty before its declaration). A
  statement of the body maps the variables before it to the variables after it.\<close>

record to_json_vars =
  var_js :: json_t
  var_eng :: VectorEngine
  var_renorm :: real
  var_rhos :: "(uint_t, cmatrix_t) fmap"
  var_ret :: "(uint_t, rvector_t) fmap"
  var_ret_ket :: "(uint_t, rket_t) fmap"
  var_tmp :: "(uint_t, cvector_t list) fmap"
  var_tmp_overlaps :: "(uint_t, rvector_t) fmap"

text \<open>The six blocks of \<open>to_json\<close>, one per field of the document, in the order of
  the source. A local variable that is initialised from a member of the engine
  (\<open>auto tmp = eng.snapshots_inprods\<close>) is a copy of it. The copy \<open>tmp\<close> of the inner
  products is chopped and then not used: the document gets \<open>eng.snapshots_inprods\<close>.\<close>

definition json_ket :: "to_json_vars \<Rightarrow> to_json_vars" where
  "json_ket \<sigma> =
     (if show_snapshots_ket (var_eng \<sigma>) \<and> snapshots_ket (var_eng \<sigma>) \<noteq> []
      then \<sigma>\<lparr>var_js := (var_js \<sigma>)\<lparr>quantum_state_ket := Some (snapshots_ket (var_eng \<sigma>))\<rparr>\<rparr>
      else \<sigma>)"

definition json_density :: "to_json_vars \<Rightarrow> to_json_vars" where
  "json_density \<sigma> =
     (if show_snapshots_density (var_eng \<sigma>) \<and> snapshots_density (var_eng \<sigma>) \<noteq> fmempty
      then let \<sigma>1 = \<sigma>\<lparr>var_rhos := fmempty\<rparr>;
               \<sigma>2 = \<sigma>1\<lparr>var_rhos :=
                      add_entries
                        (\<lambda>_ m. chop_cmatrix (epsilon (var_eng \<sigma>1)) (matrix_scale m (var_renorm \<sigma>1)))
                        [] (snapshots_density (var_eng \<sigma>1)) (var_rhos \<sigma>1)\<rparr>
           in \<sigma>2\<lparr>var_js := (var_js \<sigma>2)\<lparr>density_matrix := Some (var_rhos \<sigma>2)\<rparr>\<rparr>
      else \<sigma>)"

definition json_probs :: "to_json_vars \<Rightarrow> to_json_vars" where
  "json_probs \<sigma> =
     (if show_snapshots_probs (var_eng \<sigma>) \<and> snapshots_probs (var_eng \<sigma>) \<noteq> fmempty
      then let \<sigma>1 = \<sigma>\<lparr>var_ret := fmempty\<rparr>;
               \<sigma>2 = \<sigma>1\<lparr>var_ret :=
                      add_entries
                        (\<lambda>_ val. chop_rvector (epsilon (var_eng \<sigma>1)) (vector_scale val (var_renorm \<sigma>1)))
                        [] (snapshots_probs (var_eng \<sigma>1)) (var_ret \<sigma>1)\<rparr>
           in \<sigma>2\<lparr>var_js := (var_js \<sigma>2)\<lparr>probabilities := Some (var_ret \<sigma>2)\<rparr>\<rparr>
      else \<sigma>)"

definition json_probs_ket :: "to_json_vars \<Rightarrow> to_json_vars" where
  "json_probs_ket \<sigma> =
     (if show_snapshots_probs_ket (var_eng \<sigma>) \<and> snapshots_probs_ket (var_eng \<sigma>) \<noteq> fmempty
      then let \<sigma>1 = \<sigma>\<lparr>var_ret_ket := fmempty\<rparr>;
               \<sigma>2 = \<sigma>1\<lparr>var_ret_ket :=
                      add_entries
                        (\<lambda>_ val. chop_rket (epsilon (var_eng \<sigma>1)) (rket_scale val (var_renorm \<sigma>1)))
                        fmempty (snapshots_probs_ket (var_eng \<sigma>1)) (var_ret_ket \<sigma>1)\<rparr>
           in \<sigma>2\<lparr>var_js := (var_js \<sigma>2)\<lparr>probabilities_ket := Some (var_ret_ket \<sigma>2)\<rparr>\<rparr>
      else \<sigma>)"

definition json_inner_products :: "to_json_vars \<Rightarrow> to_json_vars" where
  "json_inner_products \<sigma> =
     (if show_snapshots_inner_product (var_eng \<sigma>) \<and> snapshots_inprods (var_eng \<sigma>) \<noteq> fmempty
      then let \<sigma>1 = \<sigma>\<lparr>var_tmp := snapshots_inprods (var_eng \<sigma>)\<rparr>;
               \<sigma>2 = \<sigma>1\<lparr>var_tmp :=
                      update_in_place (map (chop_cvector (epsilon (var_eng \<sigma>1)))) (var_tmp \<sigma>1)\<rparr>
           in \<sigma>2\<lparr>var_js := (var_js \<sigma>2)\<lparr>inner_products := Some (snapshots_inprods (var_eng \<sigma>2))\<rparr>\<rparr>
      else \<sigma>)"

definition json_overlaps :: "to_json_vars \<Rightarrow> to_json_vars" where
  "json_overlaps \<sigma> =
     (if show_snapshots_overlaps (var_eng \<sigma>) \<and> snapshots_overlaps (var_eng \<sigma>) \<noteq> fmempty
      then let \<sigma>1 = \<sigma>\<lparr>var_tmp_overlaps := snapshots_overlaps (var_eng \<sigma>)\<rparr>;
               \<sigma>2 = \<sigma>1\<lparr>var_tmp_overlaps :=
                      update_in_place
                        (\<lambda>v. chop_rvector (epsilon (var_eng \<sigma>1)) (vector_scale v (var_renorm \<sigma>1)))
                        (var_tmp_overlaps \<sigma>1)\<rparr>
           in \<sigma>2\<lparr>var_js := (var_js \<sigma>2)\<lparr>overlaps := Some (var_tmp_overlaps \<sigma>2)\<rparr>\<rparr>
      else \<sigma>)"

text \<open>\<open>to_json(js, eng)\<close> gets the document as the base class has left it. The body sets
  \<open>renorm\<close> and runs the six blocks; the result is what the call leaves of the two
  objects of the caller, the document and the engine.\<close>

definition to_json :: "json_t \<Rightarrow> VectorEngine \<Rightarrow> json_t \<times> VectorEngine" where
  "to_json js eng =
     (let \<sigma>0 = \<lparr> var_js = js, var_eng = eng, var_renorm = 1 / real (total_shots eng),
                 var_rhos = fmempty, var_ret = fmempty, var_ret_ket = fmempty,
                 var_tmp = fmempty, var_tmp_overlaps = fmempty \<rparr>;
          \<sigma>1 = json_ket \<sigma>0;
          \<sigma>2 = json_density \<sigma>1;
          \<sigma>3 = json_probs \<sigma>2;
          \<sigma>4 = json_probs_ket \<sigma>3;
          \<sigma>5 = json_inner_products \<sigma>4;
          \<sigma>6 = json_overlaps \<sigma>5
      in (var_js \<sigma>6, var_eng \<sigma>6))"

subsection \<open>Reading the configuration: \<open>from_json\<close>\<close>

text \<open>The keys of the configuration document that \<open>from_json\<close> of the engine reads;
  \<open>None\<close> is a key that is absent (\<open>JSON::get_value\<close> then returns false and leaves its
  target as it is).\<close>

record config_t =
  js_data :: "string list option"
  js_chop :: "real option"
  js_qudit_dim :: "uint_t option"
  js_target_states :: "QubitVector list option"
  js_renorm_target_states :: "bool option"

text \<open>Modelled from the spec: the case folding of one character by \<open>to_lowercase\<close>
  (misc.hpp is not among the sources). The spec: each token is normalised by case
  folding and by trimming the surrounding whitespace. A capital letter of ASCII becomes
  its small letter.\<close>

definition lowercase_char :: "char \<Rightarrow> char" where
  "lowercase_char c =
     (let n = (of_char c :: nat) in if 65 \<le> n \<and> n \<le> 90 then char_of (n + 32) else c)"

text \<open>Modelled from the spec: \<open>to_lowercase\<close> (misc.hpp): case folding of the token.\<close>

definition to_lowercase :: "string \<Rightarrow> string" where
  "to_lowercase str = map lowercase_char str"

text \<open>Modelled from the spec: the whitespace that \<open>string_trim\<close> (misc.hpp) removes: the space and the control characters from tab to carriage return.\<close>

definition is_space :: "char \<Rightarrow> bool" where
  "is_space c = ((of_char c :: nat) = 32 \<or> (9 \<le> (of_char c :: nat) \<and> (of_char c :: nat) \<le> 13))"

text \<open>Modelled from the spec: \<open>string_trim\<close> (misc.hpp): the token without its leading and trailing whitespace.\<close>

definition string_trim :: "string \<Rightarrow> string" where
  "string_trim str = rev (dropWhile is_space (rev (dropWhile is_space str)))"

text \<open>The body of the loop over the tokens of \<open>data\<close>.\<close>

definition from_json_option :: "string \<Rightarrow> VectorEngine \<Rightarrow> VectorEngine" where
  "from_json_option opt eng =
     (let o1 = string_trim (to_lowercase opt) in
      if o1 = ''quantumstateket'' \<or> o1 = ''quantumstatesket''
        then eng\<lparr>show_snapshots_ket := True\<rparr>
      else if o1 = ''densitymatrix''
        then eng\<lparr>show_snapshots_density := True\<rparr>
      else if o1 = ''probabilities'' \<or> o1 = ''probs''
        then eng\<lparr>show_snapshots_probs := True\<rparr>
      else if o1 = ''probabilitiesket'' \<or> o1 = ''probsket''
        then eng\<lparr>show_snapshots_probs_ket := True\<rparr>
      else if o1 = ''targetstatesinner''
        then eng\<lparr>show_snapshots_inner_product := True\<rparr>
      else if o1 = ''targetstatesprobs''
        then eng\<lparr>show_snapshots_overlaps := True\<rparr>
      else eng)"

text \<open>\<open>from_json(js, eng)\<close>: the engine is built anew, then configured. \<open>renormalize\<close>
  of \<open>QubitVector\<close> (qubit\_vector.hpp, not among the sources) is a parameter. The
  members of the base class that the base function and the renormalisation of the
  initial state set are not part of the record.\<close>

definition from_json :: "(QubitVector \<Rightarrow> QubitVector) \<Rightarrow> config_t \<Rightarrow> VectorEngine" where
  "from_json renormalize js =
     (let eng = VectorEngine_new 2;
          eng1 = (case js_data js of None \<Rightarrow> eng
                  | Some opts \<Rightarrow> fold from_json_option opts eng);
          eng2 = (case js_chop js of None \<Rightarrow> eng1 | Some c \<Rightarrow> eng1\<lparr>epsilon := c\<rparr>);
          eng3 = (case js_qudit_dim js of None \<Rightarrow> eng2 | Some d \<Rightarrow> eng2\<lparr>qudit_dim := d\<rparr>);
          renorm_target_states =
            (case js_renorm_target_states js of None \<Rightarrow> True | Some b \<Rightarrow> b)
      in case js_target_states js of None \<Rightarrow> eng3
         | Some ts \<Rightarrow>
             if renorm_target_states then eng3\<lparr>target_states := map renormalize ts\<rparr>
             else eng3\<lparr>target_states := ts\<rparr>)"

subsection \<open>Runs of many shots and merges of many engines\<close>

text \<open>The caller's loop over the shots of one engine: an exception ends the run.\<close>

fun run_shots ::
  "vec2ket_t \<Rightarrow> Shot list \<Rightarrow> VectorEngine \<Rightarrow> (error \<times> VectorEngine) + VectorEngine" where
  "run_shots vec2ket [] this = Inr this"
| "run_shots vec2ket (s # ss) this =
     (case compute_results vec2ket s this of
        Inl e \<Rightarrow> Inl e
      | Inr this1 \<Rightarrow> run_shots vec2ket ss this1)"

text \<open>A way to process shots on several engines: a group of shots runs on an engine of
  its own, a copy of the configured engine \<open>cfg\<close>; two results are merged with
  \<open>add\<close>, the right one into the left one.\<close>

datatype plan = Group "Shot list" | Merge plan plan

fun shots_of :: "plan \<Rightarrow> Shot list" where
  "shots_of (Group g) = g"
| "shots_of (Merge a b) = shots_of a @ shots_of b"

fun run_plan :: "vec2ket_t \<Rightarrow> VectorEngine \<Rightarrow> plan \<Rightarrow> error + VectorEngine" where
  "run_plan vec2ket cfg (Group g) =
     (case run_shots vec2ket g cfg of Inl (err, _) \<Rightarrow> Inl err | Inr e \<Rightarrow> Inr e)"
| "run_plan vec2ket cfg (Merge a b) =
     (case run_plan vec2ket cfg a of
        Inl err \<Rightarrow> Inl err
      | Inr ea \<Rightarrow>
          (case run_plan vec2ket cfg b of
             Inl err \<Rightarrow> Inl err
           | Inr eb \<Rightarrow> Inr (VectorEngine_add ea eb)))"

text \<open>A way to merge engines that already hold results.\<close>

datatype merge_plan = Engine VectorEngine | Merged merge_plan merge_plan

fun engines_of :: "merge_plan \<Rightarrow> VectorEngine list" where
  "engines_of (Engine e) = [e]"
| "engines_of (Merged a b) = engines_of a @ engines_of b"

fun merge_all :: "merge_plan \<Rightarrow> VectorEngine" where
  "merge_all (Engine e) = e"
| "merge_all (Merged a b) = VectorEngine_add (merge_all a) (merge_all b)"

text \<open>An engine without results, as it is after construction and configuration.\<close>

definition no_results :: "VectorEngine \<Rightarrow> bool" where
  "no_results e \<longleftrightarrow>
     snapshots_ket e = [] \<and> snapshots_density e = fmempty \<and> snapshots_probs e = fmempty \<and>
     snapshots_probs_ket e = fmempty \<and> snapshots_inprods e = fmempty \<and>
     snapshots_overlaps e = fmempty"

text \<open>All the state vectors that a shot hands over have \<open>n\<close> amplitudes: the snapshots
  are copies of one register.\<close>

definition shot_dim :: "nat \<Rightarrow> Shot \<Rightarrow> bool" where
  "shot_dim n s \<longleftrightarrow>
     length (qreg s) = n \<and> fmpred (\<lambda>_ psi. length psi = n) (qreg_snapshots s)"

text \<open>The engine that a result of \<open>compute_results\<close> or \<open>run_shots\<close> leaves behind,
  whether it threw or not.\<close>

definition engine_of :: "(error \<times> VectorEngine) + VectorEngine \<Rightarrow> VectorEngine" where
  "engine_of r = (case r of Inl (_, e) \<Rightarrow> e | Inr e \<Rightarrow> e)"

subsection \<open>Sums of entries that may be absent\<close>

text \<open>The sum of two entries of a map of sums, where an absent entry counts as nothing:
  this is what one visit of a loop of \<open>add\<close> does to the entry it visits.\<close>

definition osum :: "('a \<Rightarrow> 'a \<Rightarrow> 'a) \<Rightarrow> 'a option \<Rightarrow> 'a option \<Rightarrow> 'a option" where
  "osum f a b =
     (case a of None \<Rightarrow> b
      | Some x \<Rightarrow> (case b of None \<Rightarrow> Some x | Some y \<Rightarrow> Some (f x y)))"

definition osum_list :: "('a \<Rightarrow> 'a \<Rightarrow> 'a) \<Rightarrow> 'a option list \<Rightarrow> 'a option" where
  "osum_list f cs = foldr (osum f) cs None"

definition opred :: "('a \<Rightarrow> bool) \<Rightarrow> 'a option \<Rightarrow> bool" where
  "opred Q a = (case a of None \<Rightarrow> True | Some x \<Rightarrow> Q x)"

text \<open>\<open>f\<close> is an associative operation on the values that satisfy \<open>Q\<close>.\<close>

definition assoc_on :: "('a \<Rightarrow> bool) \<Rightarrow> ('a \<Rightarrow> 'a \<Rightarrow> 'a) \<Rightarrow> bool" where
  "assoc_on Q f \<longleftrightarrow>
     (\<forall>x y. Q x \<longrightarrow> Q y \<longrightarrow> Q (f x y)) \<and>
     (\<forall>x y z. Q x \<longrightarrow> Q y \<longrightarrow> Q z \<longrightarrow> f (f x y) z = f x (f y z))"

text \<open>\<open>f\<close> is an associative and commutative operation on the values that satisfy \<open>Q\<close>.\<close>

definition comm_on :: "('a \<Rightarrow> bool) \<Rightarrow> ('a \<Rightarrow> 'a \<Rightarrow> 'a) \<Rightarrow> bool" where
  "comm_on Q f \<longleftrightarrow>
     (\<forall>x y. Q x \<longrightarrow> Q y \<longrightarrow> Q (f x y) \<and> f x y = f y x) \<and>
     (\<forall>x y z. Q x \<longrightarrow> Q y \<longrightarrow> Q z \<longrightarrow> f (f x y) z = f x (f y z))"

text \<open>A square matrix of dimension \<open>n\<close>.\<close>

definition square :: "nat \<Rightarrow> cmatrix_t \<Rightarrow> bool" where
  "square n m \<longleftrightarrow> length m = n \<and> (\<forall>row \<in> set m. length row = n)"

subsection \<open>What one shot adds to the sums\<close>

text \<open>Two engines have the same configuration.\<close>

definition same_config :: "VectorEngine \<Rightarrow> VectorEngine \<Rightarrow> bool" where
  "same_config a b \<longleftrightarrow>
     qudit_dim a = qudit_dim b \<and> epsilon a = epsilon b \<and>
     show_snapshots_ket a = show_snapshots_ket b \<and>
     show_snapshots_density a = show_snapshots_density b \<and>
     show_snapshots_probs a = show_snapshots_probs b \<and>
     show_snapshots_probs_ket a = show_snapshots_probs_ket b \<and>
     show_snapshots_inner_product a = show_snapshots_inner_product b \<and>
     show_snapshots_overlaps a = show_snapshots_overlaps b \<and>
     target_states a = target_states b"

text \<open>The chopped inner products of a snapshot with the target states, in the order of
  the target states.\<close>

definition inprods_of :: "real \<Rightarrow> QubitVector list \<Rightarrow> QubitVector \<Rightarrow> cvector_t" where
  "inprods_of eps targets psi = map (\<lambda>vec. chop_complex eps (inner_product psi vec)) targets"

text \<open>Every target state has the size of the snapshot.\<close>

definition sizes_match :: "QubitVector list \<Rightarrow> QubitVector \<Rightarrow> bool" where
  "sizes_match targets psi \<longleftrightarrow> list_all (\<lambda>vec. length vec = length psi) targets"

text \<open>The shots at which an engine of configuration \<open>cfg\<close> throws.\<close>

definition shot_throws :: "VectorEngine \<Rightarrow> Shot \<Rightarrow> bool" where
  "shot_throws cfg s \<longleftrightarrow>
     \<not> snapshots_empty s \<and> target_states cfg \<noteq> [] \<and>
     (show_snapshots_inner_product cfg \<or> show_snapshots_overlaps cfg) \<and>
     \<not> list_all (\<lambda>(l, psi). sizes_match (target_states cfg) psi)
         (sorted_list_of_fmap (qreg_snapshots s))"

text \<open>The summands of a shot for the label \<open>l\<close>, one per sum.\<close>

definition contrib_density :: "VectorEngine \<Rightarrow> Shot \<Rightarrow> uint_t \<Rightarrow> cmatrix_t option" where
  "contrib_density cfg s l =
     (if \<not> snapshots_empty s \<and> show_snapshots_density cfg
      then map_option (\<lambda>psi. outer_product psi psi) (fmlookup (qreg_snapshots s) l)
      else None)"

definition contrib_probs :: "VectorEngine \<Rightarrow> Shot \<Rightarrow> uint_t \<Rightarrow> rvector_t option" where
  "contrib_probs cfg s l =
     (if \<not> snapshots_empty s \<and> show_snapshots_probs cfg
      then map_option get_probs_vec (fmlookup (qreg_snapshots s) l)
      else None)"

definition contrib_probs_ket ::
  "vec2ket_t \<Rightarrow> VectorEngine \<Rightarrow> Shot \<Rightarrow> uint_t \<Rightarrow> rket_t option" where
  "contrib_probs_ket vec2ket cfg s l =
     (if \<not> snapshots_empty s \<and> show_snapshots_probs_ket cfg
      then map_option
             (\<lambda>psi. get_probs_ket
                      (vec2ket psi (qudit_dim cfg) (epsilon cfg) (map snd (rev (qubit_sizes s)))))
             (fmlookup (qreg_snapshots s) l)
      else None)"

definition contrib_overlaps :: "VectorEngine \<Rightarrow> Shot \<Rightarrow> uint_t \<Rightarrow> rvector_t option" where
  "contrib_overlaps cfg s l =
     (if \<not> snapshots_empty s \<and> target_states cfg \<noteq> [] \<and> show_snapshots_overlaps cfg
      then map_option (\<lambda>psi. get_probs_vec (inprods_of (epsilon cfg) (target_states cfg) psi))
             (fmlookup (qreg_snapshots s) l)
      else None)"

text \<open>The entries of a shot for the two lists: the map of kets that it appends to
  \<open>snapshots_ket\<close>, and the row of inner products that it appends for the label \<open>l\<close>.\<close>

definition contrib_ket :: "vec2ket_t \<Rightarrow> VectorEngine \<Rightarrow> Shot \<Rightarrow> (uint_t, cket_t) fmap list" where
  "contrib_ket vec2ket cfg s =
     (if \<not> snapshots_empty s \<and> show_snapshots_ket cfg
      then [fmmap (\<lambda>psi. vec2ket psi (qudit_dim cfg) (epsilon cfg) (map snd (rev (qubit_sizes s))))
              (qreg_snapshots s)]
      else [])"

definition contrib_inprods :: "VectorEngine \<Rightarrow> Shot \<Rightarrow> uint_t \<Rightarrow> cvector_t list option" where
  "contrib_inprods cfg s l =
     (if \<not> snapshots_empty s \<and> target_states cfg \<noteq> [] \<and> show_snapshots_inner_product cfg
      then map_option (\<lambda>psi. [inprods_of (epsilon cfg) (target_states cfg) psi])
             (fmlookup (qreg_snapshots s) l)
      else None)"

subsection \<open>The sums in double arithmetic\<close>

text \<open>Merging compares sums of doubles that are taken in different orders, and there the
  rounding of the additions decides. This subsection embeds \<open>add\<close> and \<open>compute_results\<close>
  once more, with the arithmetic of the program: every operation on doubles gives the
  exact result rounded as IEEE 754 rounds to a double, to the nearest number with 53
  significant bits, a tie going to the one whose last bit is zero. The range of the
  exponent is not bounded: overflow and underflow are not modelled, the numbers are
  taken to stay in the range of the normal doubles. Comparisons, \<open>chop\<close> and everything
  that is not arithmetic are as above.\<close>

definition round_half_even :: "real \<Rightarrow> int" where
  "round_half_even x =
     (let f = \<lfloor>x\<rfloor>; d = x - of_int f
      in if d < 1 / 2 then f else if 1 / 2 < d then f + 1 else if even f then f else f + 1)"

definition round_double :: "real \<Rightarrow> real" where
  "round_double x =
     (if x = 0 then 0
      else let q = 2 powr (of_int \<lfloor>log 2 \<bar>x\<bar>\<rfloor> - 52)
           in q * of_int (round_half_even (x / q)))"

text \<open>\<open>+\<close>, \<open>-\<close> and \<open>*\<close> of \<open>double\<close>.\<close>

definition plus_dbl :: "real \<Rightarrow> real \<Rightarrow> real" where
  "plus_dbl x y = round_double (x + y)"

definition minus_dbl :: "real \<Rightarrow> real \<Rightarrow> real" where
  "minus_dbl x y = round_double (x - y)"

definition times_dbl :: "real \<Rightarrow> real \<Rightarrow> real" where
  "times_dbl x y = round_double (x * y)"

text \<open>\<open>+\<close> and \<open>*\<close> of \<open>std::complex<double>\<close>: the sum by components, the product as
  \<open>(ac - bd) + (ad + bc)i\<close>, each operation rounded.\<close>

definition cplus_dbl :: "complex_t \<Rightarrow> complex_t \<Rightarrow> complex_t" where
  "cplus_dbl a b = Complex (plus_dbl (Re a) (Re b)) (plus_dbl (Im a) (Im b))"

definition ctimes_dbl :: "complex_t \<Rightarrow> complex_t \<Rightarrow> complex_t" where
  "ctimes_dbl a b =
     Complex (minus_dbl (times_dbl (Re a) (Re b)) (times_dbl (Im a) (Im b)))
             (plus_dbl (times_dbl (Re a) (Im b)) (times_dbl (Im a) (Re b)))"

text \<open>Modelled from the spec: \<open>operator+=\<close> on \<open>std::vector\<close> (misc.hpp), as \<open>vector_add\<close>
  above, each element a sum of doubles.\<close>

definition vector_add_dbl :: "rvector_t \<Rightarrow> rvector_t \<Rightarrow> rvector_t" where
  "vector_add_dbl lhs rhs = (if lhs = [] then rhs else map2 plus_dbl lhs rhs)"

text \<open>Modelled from the spec: \<open>operator+=\<close> on maps (misc.hpp), as \<open>rket_add\<close> above, each
  value a sum of doubles; a new key starts from the double zero.\<close>

definition rket_add_dbl :: "rket_t \<Rightarrow> rket_t \<Rightarrow> rket_t" where
  "rket_add_dbl lhs rhs =
     fold (\<lambda>(k, v) m. fmupd k (plus_dbl (map_at m k 0) v) m) (sorted_list_of_fmap rhs) lhs"

text \<open>Modelled from the spec: \<open>operator+\<close> and \<open>operator+=\<close> of the matrix class
  (matrix.hpp), as \<open>matrix_add\<close> above, each element a sum of complex doubles.\<close>

definition matrix_add_dbl :: "cmatrix_t \<Rightarrow> cmatrix_t \<Rightarrow> cmatrix_t" where
  "matrix_add_dbl a b = map2 (map2 cplus_dbl) a b"

text \<open>Modelled from the spec: \<open>outer_product\<close> (misc.hpp or matrix.hpp), as above, each
  element a product of complex doubles.\<close>

definition outer_product_dbl :: "cvector_t \<Rightarrow> cvector_t \<Rightarrow> cmatrix_t" where
  "outer_product_dbl u v = map (\<lambda>a. map (\<lambda>b. ctimes_dbl a (cnj b)) v) u"

text \<open>Modelled from the spec: \<open>QubitVector::inner_product\<close> (qubit\_vector.hpp), as above:
  the products of the amplitudes with the conjugated amplitudes of the target, added
  up from the first one on.\<close>

definition inner_product_dbl :: "QubitVector \<Rightarrow> QubitVector \<Rightarrow> complex_t" where
  "inner_product_dbl psi vec =
     fold (\<lambda>(a, b) acc. cplus_dbl acc (ctimes_dbl a (cnj b))) (zip psi vec) 0"

text \<open>\<open>add\<close> in double arithmetic.\<close>

definition density_add_dbl :: "cmatrix_t \<Rightarrow> cmatrix_t \<Rightarrow> cmatrix_t" where
  "density_add_dbl rho m = (if matrix_size rho = 0 then m else matrix_add_dbl rho m)"

definition VectorEngine_add_dbl :: "VectorEngine \<Rightarrow> VectorEngine \<Rightarrow> VectorEngine" where
  "VectorEngine_add_dbl this eng =
     this\<lparr> snapshots_ket := snapshots_ket this @ snapshots_ket eng,
           snapshots_density :=
             add_entries density_add_dbl [] (snapshots_density eng) (snapshots_density this),
           snapshots_probs :=
             add_entries vector_add_dbl [] (snapshots_probs eng) (snapshots_probs this),
           snapshots_probs_ket :=
             add_entries rket_add_dbl fmempty (snapshots_probs_ket eng) (snapshots_probs_ket this),
           snapshots_overlaps :=
             add_entries vector_add_dbl [] (snapshots_overlaps eng) (snapshots_overlaps this),
           snapshots_inprods :=
             add_entries (\<lambda>mine theirs. mine @ theirs) [] (snapshots_inprods eng)
               (snapshots_inprods this) \<rparr>"

text \<open>\<open>get_probs\<close> and \<open>compute_results\<close> in double arithmetic, block by block as above.\<close>

definition get_probs_dbl :: "complex_t \<Rightarrow> real" where
  "get_probs_dbl val = Re (ctimes_dbl (cnj val) val)"

definition get_probs_vec_dbl :: "QubitVector \<Rightarrow> rvector_t" where
  "get_probs_vec_dbl vec = fold (\<lambda>elt ret. ret @ [get_probs_dbl elt]) vec []"

definition compute_ket_dbl ::
  "vec2ket_t \<Rightarrow> uint_t list \<Rightarrow> Shot \<Rightarrow> VectorEngine \<Rightarrow> VectorEngine" where
  "compute_ket_dbl vec2ket regs s this =
     (if show_snapshots_ket this \<or> show_snapshots_probs_ket this then
        let km = add_entries (\<lambda>_ psi. vec2ket psi (qudit_dim this) (epsilon this) regs)
                   fmempty (qreg_snapshots s) fmempty;
            this1 = (if show_snapshots_ket this
                     then this\<lparr>snapshots_ket := snapshots_ket this @ [km]\<rparr> else this)
        in if show_snapshots_probs_ket this1
           then this1\<lparr>snapshots_probs_ket :=
                  add_entries
                    (\<lambda>mine ket.
                       let tmp = fold (\<lambda>(k, val) tmp. fmupd k (get_probs_dbl val) tmp)
                                   (sorted_list_of_fmap ket) fmempty
                       in rket_add_dbl mine tmp)
                    fmempty km (snapshots_probs_ket this1)\<rparr>
           else this1
      else this)"

definition compute_density_dbl :: "Shot \<Rightarrow> VectorEngine \<Rightarrow> VectorEngine" where
  "compute_density_dbl s this =
     (if show_snapshots_density this then
        this\<lparr>snapshots_density :=
          add_entries
            (\<lambda>rho psi. if matrix_size rho = 0 then outer_product_dbl psi psi
                        else matrix_add_dbl rho (outer_product_dbl psi psi))
            [] (qreg_snapshots s) (snapshots_density this)\<rparr>
      else this)"

definition compute_probs_dbl :: "Shot \<Rightarrow> VectorEngine \<Rightarrow> VectorEngine" where
  "compute_probs_dbl s this =
     (if show_snapshots_probs this then
        this\<lparr>snapshots_probs :=
          add_entries
            (\<lambda>pr psi. if pr = [] then get_probs_vec_dbl psi
                       else vector_add_dbl pr (get_probs_vec_dbl psi))
            [] (qreg_snapshots s) (snapshots_probs this)\<rparr>
      else this)"

fun compute_inprods_dbl ::
  "real \<Rightarrow> uint_t \<Rightarrow> QubitVector \<Rightarrow> QubitVector list \<Rightarrow> cvector_t \<Rightarrow> error + cvector_t" where
  "compute_inprods_dbl eps nstates psi [] inprods = Inr inprods"
| "compute_inprods_dbl eps nstates psi (vec # vecs) inprods =
     (if length vec \<noteq> length psi then Inl (TargetStateSize (length vec) nstates)
      else compute_inprods_dbl eps nstates psi vecs
             (inprods @ [chop_complex eps (inner_product_dbl psi vec)]))"

definition store_inprods_dbl :: "uint_t \<Rightarrow> cvector_t \<Rightarrow> VectorEngine \<Rightarrow> VectorEngine" where
  "store_inprods_dbl label inprods this =
     (let this1 = (if show_snapshots_inner_product this
                   then this\<lparr>snapshots_inprods :=
                          fmupd label (map_at (snapshots_inprods this) label [] @ [inprods])
                            (snapshots_inprods this)\<rparr>
                   else this)
      in if show_snapshots_overlaps this1
         then this1\<lparr>snapshots_overlaps :=
                fmupd label
                  (vector_add_dbl (map_at (snapshots_overlaps this1) label [])
                     (get_probs_vec_dbl inprods))
                  (snapshots_overlaps this1)\<rparr>
         else this1)"

fun compute_inner_dbl ::
  "uint_t \<Rightarrow> (uint_t \<times> QubitVector) list \<Rightarrow> VectorEngine \<Rightarrow> (error \<times> VectorEngine) + VectorEngine" where
  "compute_inner_dbl nstates [] this = Inr this"
| "compute_inner_dbl nstates ((label, psi) # rest) this =
     (case compute_inprods_dbl (epsilon this) nstates psi (target_states this) [] of
        Inl err \<Rightarrow> Inl (err, this)
      | Inr inprods \<Rightarrow> compute_inner_dbl nstates rest (store_inprods_dbl label inprods this))"

definition compute_results_dbl ::
  "vec2ket_t \<Rightarrow> Shot \<Rightarrow> VectorEngine \<Rightarrow> (error \<times> VectorEngine) + VectorEngine" where
  "compute_results_dbl vec2ket s this =
     (let ket_form = (show_snapshots_ket this \<or> show_snapshots_probs_ket this);
          regs = (if ket_form then map snd (rev (qubit_sizes s)) else [])
      in if \<not> snapshots_empty s then
           let this1 = compute_ket_dbl vec2ket regs s this;
               this2 = compute_density_dbl s this1;
               this3 = compute_probs_dbl s this2
           in if target_states this3 \<noteq> [] \<and>
                 (show_snapshots_inner_product this3 \<or> show_snapshots_overlaps this3)
              then compute_inner_dbl (length (qreg s)) (sorted_list_of_fmap (qreg_snapshots s)) this3
              else Inr this3
         else Inr this)"

text \<open>The run of the shots on one engine, and a plan of groups and merges, as above.\<close>

fun run_shots_dbl ::
  "vec2ket_t \<Rightarrow> Shot list \<Rightarrow> VectorEngine \<Rightarrow> (error \<times> VectorEngine) + VectorEngine" where
  "run_shots_dbl vec2ket [] this = Inr this"
| "run_shots_dbl vec2ket (s # ss) this =
     (case compute_results_dbl vec2ket s this of
        Inl e \<Rightarrow> Inl e
      | Inr this1 \<Rightarrow> run_shots_dbl vec2ket ss this1)"

fun run_plan_dbl :: "vec2ket_t \<Rightarrow> VectorEngine \<Rightarrow> plan \<Rightarrow> error + VectorEngine" where
  "run_plan_dbl vec2ket cfg (Group g) =
     (case run_shots_dbl vec2ket g cfg of Inl (err, _) \<Rightarrow> Inl err | Inr e \<Rightarrow> Inr e)"
| "run_plan_dbl vec2ket cfg (Merge a b) =
     (case run_plan_dbl vec2ket cfg a of
        Inl err \<Rightarrow> Inl err
      | Inr ea \<Rightarrow>
          (case run_plan_dbl vec2ket cfg b of
             Inl err \<Rightarrow> Inl err
           | Inr eb \<Rightarrow> Inr (VectorEngine_add_dbl ea eb)))"

text \<open>The summands of a shot for the label \<open>l\<close>, one per sum, as the program computes
  them.\<close>

definition inprods_of_dbl :: "real \<Rightarrow> QubitVector list \<Rightarrow> QubitVector \<Rightarrow> cvector_t" where
  "inprods_of_dbl eps targets psi =
     map (\<lambda>vec. chop_complex eps (inner_product_dbl psi vec)) targets"

definition get_probs_ket_dbl :: "cket_t \<Rightarrow> rket_t" where
  "get_probs_ket_dbl ket =
     fold (\<lambda>(k, elt) ret. fmupd k (get_probs_dbl elt) ret) (sorted_list_of_fmap ket) fmempty"

definition contrib_density_dbl :: "VectorEngine \<Rightarrow> Shot \<Rightarrow> uint_t \<Rightarrow> cmatrix_t option" where
  "contrib_density_dbl cfg s l =
     (if \<not> snapshots_empty s \<and> show_snapshots_density cfg
      then map_option (\<lambda>psi. outer_product_dbl psi psi) (fmlookup (qreg_snapshots s) l)
      else None)"

definition contrib_probs_dbl :: "VectorEngine \<Rightarrow> Shot \<Rightarrow> uint_t \<Rightarrow> rvector_t option" where
  "contrib_probs_dbl cfg s l =
     (if \<not> snapshots_empty s \<and> show_snapshots_probs cfg
      then map_option get_probs_vec_dbl (fmlookup (qreg_snapshots s) l)
      else None)"

definition contrib_probs_ket_dbl ::
  "vec2ket_t \<Rightarrow> VectorEngine \<Rightarrow> Shot \<Rightarrow> uint_t \<Rightarrow> rket_t option" where
  "contrib_probs_ket_dbl vec2ket cfg s l =
     (if \<not> snapshots_empty s \<and> show_snapshots_probs_ket cfg
      then map_option
             (\<lambda>psi. get_probs_ket_dbl
                      (vec2ket psi (qudit_dim cfg) (epsilon cfg) (map snd (rev (qubit_sizes s)))))
             (fmlookup (qreg_snapshots s) l)
      else None)"

definition contrib_overlaps_dbl :: "VectorEngine \<Rightarrow> Shot \<Rightarrow> uint_t \<Rightarrow> rvector_t option" where
  "contrib_overlaps_dbl cfg s l =
     (if \<not> snapshots_empty s \<and> target_states cfg \<noteq> [] \<and> show_snapshots_overlaps cfg
      then map_option
             (\<lambda>psi. get_probs_vec_dbl (inprods_of_dbl (epsilon cfg) (target_states cfg) psi))
             (fmlookup (qreg_snapshots s) l)
      else None)"

text \<open>The entries that are there, and the summands of a list of shots for a label.\<close>

definition present :: "'a option multiset \<Rightarrow> 'a multiset" where
  "present M = image_mset the (filter_mset (\<lambda>x. x \<noteq> None) M)"

definition summands :: "(Shot \<Rightarrow> uint_t \<Rightarrow> 'a option) \<Rightarrow> Shot list \<Rightarrow> uint_t \<Rightarrow> 'a multiset" where
  "summands c shots l = present (image_mset (\<lambda>s. c s l) (mset shots))"

text \<open>How far a sum of doubles can be from the exact sum of its summands. An addition
  of doubles has a relative error of at most \<open>unit_roundoff\<close>. A number \<open>v\<close> is a
  rounded sum of the summands \<open>M\<close> when it differs from their exact sum by at most
  \<open>roundoff_bound (size M)\<close> times the sum of their absolute values: this is the error
  that the additions of any way of adding up \<open>size M\<close> numbers can make.\<close>

definition unit_roundoff :: real where
  "unit_roundoff = 1 / 2 ^ 53"

definition roundoff_bound :: "nat \<Rightarrow> real" where
  "roundoff_bound k = (1 + unit_roundoff) ^ (k - 1) - 1"

definition rounded_sum :: "'a::real_normed_vector multiset \<Rightarrow> 'a \<Rightarrow> bool" where
  "rounded_sum M v \<longleftrightarrow>
     norm (v - sum_mset M) \<le> roundoff_bound (size M) * sum_mset (image_mset norm M)"

text \<open>A vector \<open>v\<close> of \<open>n\<close> doubles is a rounded sum of the vectors \<open>M\<close>: they all have
  \<open>n\<close> elements, and every element of \<open>v\<close> is a rounded sum of the elements of the
  vectors of \<open>M\<close> at its place. Likewise a square matrix of dimension \<open>n\<close>, element by
  element.\<close>

definition rounded_vec :: "nat \<Rightarrow> rvector_t multiset \<Rightarrow> rvector_t \<Rightarrow> bool" where
  "rounded_vec n M v \<longleftrightarrow>
     M \<noteq> {#} \<and> length v = n \<and> (\<forall>x \<in># M. length x = n) \<and>
     (\<forall>i < n. rounded_sum (image_mset (\<lambda>x. x ! i) M) (v ! i))"

definition rounded_mat :: "nat \<Rightarrow> cmatrix_t multiset \<Rightarrow> cmatrix_t \<Rightarrow> bool" where
  "rounded_mat n M m \<longleftrightarrow>
     M \<noteq> {#} \<and> square n m \<and> (\<forall>x \<in># M. square n x) \<and>
     (\<forall>i < n. \<forall>j < n. rounded_sum (image_mset (\<lambda>x. x ! i ! j) M) (m ! i ! j))"

text \<open>A real number is a double when rounding does not change it. A map \<open>r\<close> of doubles
  is a rounded sum of the maps \<open>M\<close>, whose values are doubles: it has a value for a key
  exactly when one of them has, and the value is a double and a rounded sum of the
  values that they have for the key.\<close>

definition is_double :: "real \<Rightarrow> bool" where
  "is_double x \<longleftrightarrow> round_double x = x"

definition rounded_ket :: "rket_t multiset \<Rightarrow> rket_t \<Rightarrow> bool" where
  "rounded_ket M r \<longleftrightarrow>
     M \<noteq> {#} \<and> (\<forall>x \<in># M. fmpred (\<lambda>_. is_double) x) \<and>
     (\<forall>k. case fmlookup r k of
             None \<Rightarrow> present (image_mset (\<lambda>x. fmlookup x k) M) = {#}
           | Some v \<Rightarrow> present (image_mset (\<lambda>x. fmlookup x k) M) \<noteq> {#} \<and> is_double v \<and>
                       rounded_sum (present (image_mset (\<lambda>x. fmlookup x k) M)) v)"

text \<open>What one visit of a loop of \<open>add\<close> or of \<open>compute_results\<close> does to the entry \<open>a\<close>
  of a label, given the visited entry \<open>b\<close>: nothing when there is none, and else it
  combines the entry, default-constructed as \<open>d\<close> when new, with \<open>b\<close>.\<close>

definition oadd :: "('v \<Rightarrow> 'w \<Rightarrow> 'v) \<Rightarrow> 'v \<Rightarrow> 'v option \<Rightarrow> 'w option \<Rightarrow> 'v option" where
  "oadd f d a b =
     (case b of None \<Rightarrow> a
      | Some w \<Rightarrow> Some (f (case a of None \<Rightarrow> d | Some v \<Rightarrow> v) w))"

text \<open>The entry \<open>r\<close> of a label in a map of sums comes from the summands \<open>M\<close>: it is
  absent when there are none, and else it is a rounded sum of them.\<close>

definition sum_of :: "('a multiset \<Rightarrow> 'v \<Rightarrow> bool) \<Rightarrow> 'a multiset \<Rightarrow> 'v option \<Rightarrow> bool" where
  "sum_of ap M r = (case r of None \<Rightarrow> M = {#} | Some v \<Rightarrow> ap M v)"

subsection \<open>Small inputs\<close>

text \<open>A shot of one qubit with one snapshot, of label 0, of its state \<open>[a, b]\<close>.\<close>

definition example_shot :: "complex \<Rightarrow> complex \<Rightarrow> Shot" where
  "example_shot a b =
     \<lparr> qubit_sizes = [(''q'', 1)], qreg = [a, b],
       qreg_snapshots = fmupd 0 [a, b] fmempty, snapshots_empty = False \<rparr>"

text \<open>A ket function that keeps every amplitude and names it by its index.\<close>

definition example_vec2ket :: vec2ket_t where
  "example_vec2ket vec d eps regs =
     fold (\<lambda>(i, a) ket. fmupd (replicate i CHR ''1'') a ket) (zip [0..<length vec] vec) fmempty"

text \<open>A document without any of the six fields.\<close>

definition json_null :: json_t where
  "json_null =
     \<lparr> quantum_state_ket = None, density_matrix = None, probabilities = None,
       probabilities_ket = None, inner_products = None, overlaps = None \<rparr>"

text \<open>An engine with all selectors on that holds the results of two shots, each with
  the snapshot \<open>[1, 0]\<close> of label 0, for the target state \<open>[1, 0]\<close>.\<close>

definition example_engine :: VectorEngine where
  "example_engine =
     \<lparr> total_shots = 2, qudit_dim = 2, epsilon = 1 / 10 ^ 10,
       show_snapshots_ket = True, show_snapshots_density = True,
       show_snapshots_probs = True, show_snapshots_probs_ket = True,
       show_snapshots_inner_product = True, show_snapshots_overlaps = True,
       target_states = [[1, 0]],
       snapshots_ket = [fmupd 0 (fmupd [] 1 fmempty) fmempty,
                        fmupd 0 (fmupd [] 1 fmempty) fmempty],
       snapshots_density = fmupd 0 [[2, 0], [0, 0]] fmempty,
       snapshots_probs = fmupd 0 [2, 0] fmempty,
       snapshots_probs_ket = fmupd 0 (fmupd [] 2 fmempty) fmempty,
       snapshots_inprods = fmupd 0 [[1], [1]] fmempty,
       snapshots_overlaps = fmupd 0 [2] fmempty \<rparr>"

text \<open>A shot of one qubit with one snapshot, of label 0, of the state \<open>[2^-27, 1]\<close>: its
  norm is 1 in double arithmetic.\<close>

definition tiny_shot :: Shot where
  "tiny_shot = example_shot (complex_of_real (1 / 2 ^ 27)) 1"

section \<open>Properties\<close>

subsection \<open>Entries of finite maps\<close>

lemma entries_empty: "sorted_list_of_fmap fmempty = []"
  by (simp add: sorted_list_of_fmap_def sorted_list_of_fset.rep_eq)
lemma entries_single: "sorted_list_of_fmap (fmupd k v fmempty) = [(k, v)]"
  by (simp add: sorted_list_of_fmap_def sorted_list_of_fset.rep_eq)

lemma fmpred_single: "fmpred P (fmupd k v fmempty) \<longleftrightarrow> P k v"
  by (auto simp: fmpred_iff split: if_splits)

lemma distinct_entries: "distinct (map fst (sorted_list_of_fmap m))"
  by (simp add: sorted_list_of_fmap_def comp_def sorted_list_of_fset.rep_eq)

lemma fold_entries_lookup:
  "distinct (map fst xs) \<Longrightarrow>
   fmlookup (fold (\<lambda>(k, v) m. fmupd k (f (map_at m k d) v) m) xs m0) l =
     (case map_of xs l of None \<Rightarrow> fmlookup m0 l | Some v \<Rightarrow> Some (f (map_at m0 l d) v))"
proof (induction xs arbitrary: m0)
  case Nil
  then show ?case by simp
next
  case (Cons a xs)
  obtain k v where a: "a = (k, v)" by (cases a)
  from Cons.prems a have nk: "map_of xs k = None" and dist: "distinct (map fst xs)"
    by (auto simp: map_of_eq_None_iff)
  show ?case
    using Cons.IH [OF dist, of "fmupd k (f (map_at m0 k d) v) m0"] nk
    by (auto simp: a map_at_def split: option.splits)
qed

lemma add_entries_lookup:
  "fmlookup (add_entries f d other mine) l =
     (case fmlookup other l of None \<Rightarrow> fmlookup mine l
      | Some v \<Rightarrow> Some (f (map_at mine l d) v))"
  unfolding add_entries_def
  by (simp add: fold_entries_lookup [OF distinct_entries])

lemma get_probs_vec_map: "get_probs_vec vec = map get_probs vec"
proof -
  have "fold (\<lambda>elt ret. ret @ [get_probs elt]) vec acc = acc @ map get_probs vec" for acc
    by (induction vec arbitrary: acc) auto
  then show ?thesis by (simp add: get_probs_vec_def)
qed

lemma update_in_place_lookup:
  "fmlookup (update_in_place f tmp) l = map_option f (fmlookup tmp l)"
proof -
  have gen: "distinct ks \<Longrightarrow>
    fmlookup (fold (\<lambda>k m. case fmlookup m k of None \<Rightarrow> m | Some v \<Rightarrow> fmupd k (f v) m) ks m0) l =
      (if l \<in> set ks then map_option f (fmlookup m0 l) else fmlookup m0 l)" for ks m0
  proof (induction ks arbitrary: m0)
    case Nil
    then show ?case by simp
  next
    case (Cons k ks)
    then show ?case by (auto split: option.splits)
  qed
  have "distinct (sorted_list_of_fset (fmdom tmp))"
    by (simp add: sorted_list_of_fset.rep_eq)
  from gen [OF this, of tmp] show ?thesis
    by (auto simp: update_in_place_def sorted_list_of_fset.rep_eq fmdom'_alt_def [symmetric] fmdom'_notI)
qed

lemma update_in_place_eq: "update_in_place f tmp = fmmap f tmp"
  by (rule fmap_ext) (simp add: update_in_place_lookup)

lemma add_entries_map: "add_entries (\<lambda>_ v. g v) d other fmempty = fmmap g other"
  by (rule fmap_ext) (simp add: add_entries_lookup split: option.splits)

subsection \<open>Sums of optional entries\<close>

lemma osum_None [simp]: "osum f None b = b" "osum f a None = a"
  by (auto simp: osum_def split: option.splits)

lemma osum_Some [simp]: "osum f (Some x) (Some y) = Some (f x y)"
  by (simp add: osum_def)

lemma opred_simps [simp]: "opred Q None" "opred Q (Some x) = Q x"
  by (simp_all add: opred_def)

lemma comm_on_assoc_on: "comm_on Q f \<Longrightarrow> assoc_on Q f"
  unfolding comm_on_def assoc_on_def by blast

lemma osum_closed: "assoc_on Q f \<Longrightarrow> opred Q a \<Longrightarrow> opred Q b \<Longrightarrow> opred Q (osum f a b)"
  by (cases a; cases b) (auto simp: assoc_on_def)

lemma osum_commute: "comm_on Q f \<Longrightarrow> opred Q a \<Longrightarrow> opred Q b \<Longrightarrow> osum f a b = osum f b a"
  by (cases a; cases b) (auto simp: comm_on_def)

lemma osum_assoc:
  "assoc_on Q f \<Longrightarrow> opred Q a \<Longrightarrow> opred Q b \<Longrightarrow> opred Q c \<Longrightarrow>
   osum f (osum f a b) c = osum f a (osum f b c)"
  by (cases a; cases b; cases c) (auto simp: assoc_on_def)

lemma osum_list_simps [simp]:
  "osum_list f [] = None" "osum_list f (c # cs) = osum f c (osum_list f cs)"
  by (simp_all add: osum_list_def)

lemma osum_list_closed:
  "assoc_on Q f \<Longrightarrow> list_all (opred Q) cs \<Longrightarrow> opred Q (osum_list f cs)"
  by (induction cs) (auto intro: osum_closed)

lemma osum_list_append:
  "assoc_on Q f \<Longrightarrow> list_all (opred Q) xs \<Longrightarrow> list_all (opred Q) ys \<Longrightarrow>
   osum_list f (xs @ ys) = osum f (osum_list f xs) (osum_list f ys)"
proof (induction xs)
  case Nil
  then show ?case by simp
next
  case (Cons x xs)
  then show ?case
    by (simp add: osum_assoc [of Q f] osum_list_closed)
qed

lemma osum_list_remove1:
  assumes "comm_on Q f" "list_all (opred Q) cs" "c \<in> set cs"
  shows "osum_list f cs = osum f c (osum_list f (remove1 c cs))"
  using assms(2,3)
proof (induction cs)
  case Nil
  then show ?case by simp
next
  case (Cons x xs)
  show ?case
  proof (cases "x = c")
    case True
    then show ?thesis by simp
  next
    case False
    with Cons.prems have cin: "c \<in> set xs" and allxs: "list_all (opred Q) xs"
      and qx: "opred Q x" by auto
    have qc: "opred Q c" using cin allxs by (auto simp: list_all_iff)
    have qr: "opred Q (osum_list f (remove1 c xs))"
      using allxs
      by (intro osum_list_closed [OF comm_on_assoc_on [OF assms(1)]])
         (auto simp: list_all_iff dest: notin_set_remove1)
    have "osum_list f (x # xs) = osum f x (osum f c (osum_list f (remove1 c xs)))"
      using Cons.IH [OF allxs cin] by simp
    also have "\<dots> = osum f (osum f x c) (osum_list f (remove1 c xs))"
      using osum_assoc [OF comm_on_assoc_on [OF assms(1)] qx qc qr] by simp
    also have "\<dots> = osum f (osum f c x) (osum_list f (remove1 c xs))"
      using osum_commute [OF assms(1) qx qc] by simp
    also have "\<dots> = osum f c (osum f x (osum_list f (remove1 c xs)))"
      using osum_assoc [OF comm_on_assoc_on [OF assms(1)] qc qx qr] by simp
    finally show ?thesis using False by simp
  qed
qed

lemma osum_list_mset:
  assumes "comm_on Q f"
  shows "mset xs = mset ys \<Longrightarrow> list_all (opred Q) xs \<Longrightarrow> osum_list f xs = osum_list f ys"
proof (induction xs arbitrary: ys)
  case Nil
  then show ?case by simp
next
  case (Cons x xs)
  from Cons.prems(1) have xin: "x \<in> set ys"
    by (metis list.set_intros(1) set_mset_mset)
  from Cons.prems(1) have m: "mset xs = mset (remove1 x ys)"
    by (metis mset_remove1 add_mset_remove_trivial mset.simps(2))
  have allys: "list_all (opred Q) ys"
    using Cons.prems by (metis list_all_iff set_mset_mset)
  from Cons.prems(2) have allxs: "list_all (opred Q) xs" by simp
  have "osum_list f (x # xs) = osum f x (osum_list f (remove1 x ys))"
    using Cons.IH [OF m allxs] by simp
  also have "\<dots> = osum_list f ys"
    using osum_list_remove1 [OF assms allys xin] by simp
  finally show ?case .
qed

subsection \<open>The sums of vectors, matrices and sparse maps\<close>

lemma vector_add_Nil [simp]: "vector_add [] v = v"
  by (simp add: vector_add_def)

lemma vector_add_same_length:
  "length x = length y \<Longrightarrow> vector_add x y = map2 (+) x y"
  by (auto simp: vector_add_def)

lemma map2_plus_commute: "map2 (+) x y = map2 (+) y (x :: 'a::ab_semigroup_add list)"
  by (induction x arbitrary: y) (case_tac y, simp_all add: add.commute)+

lemma map2_plus_assoc:
  "map2 (+) (map2 (+) x y) z = map2 (+) x (map2 (+) y (z :: 'a::semigroup_add list))"
proof (induction x arbitrary: y z)
  case Nil
  then show ?case by simp
next
  case (Cons a x)
  then show ?case by (cases y; cases z) (simp_all add: add.assoc)
qed

lemma comm_on_vector_add: "comm_on (\<lambda>v. length v = n) vector_add"
  unfolding comm_on_def
proof (intro conjI allI impI)
  fix x y :: rvector_t assume "length x = n" "length y = n"
  then show "length (vector_add x y) = n" by (simp add: vector_add_same_length)
  show "vector_add x y = vector_add y x"
    using \<open>length x = n\<close> \<open>length y = n\<close> map2_plus_commute [of x y]
    by (simp add: vector_add_same_length)
next
  fix x y z :: rvector_t assume "length x = n" "length y = n" "length z = n"
  then show "vector_add (vector_add x y) z = vector_add x (vector_add y z)"
    using map2_plus_assoc [of x y z] by (simp add: vector_add_same_length)
qed

lemma matrix_size_simps:
  "matrix_size [] = 0" "matrix_size (row # rows) = length row + matrix_size rows"
  by (simp_all add: matrix_size_def)

lemma density_add_Nil [simp]: "density_add [] m = m"
  by (simp add: density_add_def matrix_size_def)

lemma density_add_square:
  assumes "square n a" "square n b"
  shows "density_add a b = matrix_add a b"
proof (cases "matrix_size a = 0")
  case False
  then show ?thesis by (simp add: density_add_def)
next
  case True
  have "n = 0"
  proof (rule ccontr)
    assume "n \<noteq> 0"
    with assms(1) obtain r rs where "a = r # rs" "length r = n"
      by (cases a) (auto simp: square_def)
    with True \<open>n \<noteq> 0\<close> show False by (simp add: matrix_size_def)
  qed
  with assms have "a = []" "b = []" by (auto simp: square_def)
  then show ?thesis by (simp add: matrix_add_def)
qed

lemma square_matrix_add: "square n a \<Longrightarrow> square n b \<Longrightarrow> square n (matrix_add a b)"
  by (auto simp: square_def matrix_add_def dest!: set_zip_leftD set_zip_rightD elim!: in_set_zipE)

lemma matrix_add_commute: "matrix_add a b = matrix_add b a"
  unfolding matrix_add_def
proof (induction a arbitrary: b)
  case Nil
  then show ?case by simp
next
  case (Cons r a)
  then show ?case using map2_plus_commute [of r] by (cases b) simp_all
qed

lemma matrix_add_assoc: "matrix_add (matrix_add a b) c = matrix_add a (matrix_add b c)"
  unfolding matrix_add_def
proof (induction a arbitrary: b c)
  case Nil
  then show ?case by simp
next
  case (Cons r a)
  then show ?case by (cases b; cases c) (simp_all add: map2_plus_assoc)
qed

lemma comm_on_density_add: "comm_on (square n) density_add"
  unfolding comm_on_def
proof (intro conjI allI impI)
  fix x y assume xy: "square n x" "square n y"
  then show "square n (density_add x y)"
    using density_add_square [OF xy] by (simp add: square_matrix_add)
  show "density_add x y = density_add y x"
    using density_add_square [OF xy] density_add_square [OF xy(2,1)] matrix_add_commute [of x y]
    by simp
next
  fix x y z assume xyz: "square n x" "square n y" "square n z"
  have "density_add (density_add x y) z = matrix_add (matrix_add x y) z"
    using density_add_square [OF xyz(1,2)]
      density_add_square [OF square_matrix_add [OF xyz(1,2)] xyz(3)] by simp
  moreover have "density_add x (density_add y z) = matrix_add x (matrix_add y z)"
    using density_add_square [OF xyz(2,3)]
      density_add_square [OF xyz(1) square_matrix_add [OF xyz(2,3)]] by simp
  ultimately show "density_add (density_add x y) z = density_add x (density_add y z)"
    by (simp add: matrix_add_assoc)
qed

lemma rket_add_lookup:
  "fmlookup (rket_add a b) k =
     (case fmlookup b k of None \<Rightarrow> fmlookup a k | Some v \<Rightarrow> Some (map_at a k 0 + v))"
  unfolding rket_add_def
  by (simp add: fold_entries_lookup [OF distinct_entries])

lemma rket_add_empty [simp]: "rket_add fmempty r = r"
  by (rule fmap_ext) (simp add: rket_add_lookup map_at_def split: option.splits)

lemma rket_add_commute: "rket_add a b = rket_add b a"
  by (rule fmap_ext) (simp add: rket_add_lookup map_at_def split: option.splits)

lemma rket_add_assoc: "rket_add (rket_add a b) c = rket_add a (rket_add b c)"
  by (rule fmap_ext) (simp add: rket_add_lookup map_at_def split: option.splits)

lemma comm_on_rket_add: "comm_on (\<lambda>_. True) rket_add"
  unfolding comm_on_def using rket_add_commute rket_add_assoc by auto

lemma add_entries_osum:
  assumes "\<And>v. f d v = v"
  shows "fmlookup (add_entries f d other mine) l = osum f (fmlookup mine l) (fmlookup other l)"
  by (simp add: add_entries_lookup map_at_def assms split: option.splits)

lemma add_entries_osum_map:
  assumes "\<And>v. f d v = v"
  shows "fmlookup (add_entries (\<lambda>x w. f x (g w)) d other mine) l =
         osum f (fmlookup mine l) (map_option g (fmlookup other l))"
  by (simp add: add_entries_lookup map_at_def assms split: option.splits)

subsection \<open>The loop over the target states\<close>

lemma compute_inprods_ok:
  "sizes_match vecs psi \<Longrightarrow>
   compute_inprods eps n psi vecs acc = Inr (acc @ inprods_of eps vecs psi)"
  by (induction vecs arbitrary: acc) (auto simp: sizes_match_def inprods_of_def)

lemma compute_inprods_fail:
  "\<not> sizes_match vecs psi \<Longrightarrow>
   \<exists>vec. find (\<lambda>vec. length vec \<noteq> length psi) vecs = Some vec \<and>
     compute_inprods eps n psi vecs acc = Inl (TargetStateSize (length vec) n)"
  by (induction vecs arbitrary: acc) (auto simp: sizes_match_def)

lemma compute_inprods_Inr_iff:
  "(\<exists>ips. compute_inprods eps n psi vecs acc = Inr ips) \<longleftrightarrow> sizes_match vecs psi"
  using compute_inprods_ok [of vecs psi eps n acc] compute_inprods_fail [of vecs psi eps n acc]
  by (cases "sizes_match vecs psi") auto

lemma engine_of_simps [simp]: "engine_of (Inl (err, e)) = e" "engine_of (Inr e) = e"
  by (simp_all add: engine_of_def)

lemma compute_inner_preserves:
  assumes "\<And>l ips e. F (store_inprods l ips e) = F e"
  shows "F (engine_of (compute_inner n xs e)) = F e"
proof (induction xs arbitrary: e)
  case Nil
  then show ?case by simp
next
  case (Cons x xs)
  obtain l psi where x: "x = (l, psi)" by (cases x)
  show ?case
    by (cases "compute_inprods (epsilon e) n psi (target_states e) []")
       (simp_all add: x Cons.IH assms)
qed


lemma store_inprods_config [simp]:
  "qudit_dim (store_inprods l ips e) = qudit_dim e"
  "epsilon (store_inprods l ips e) = epsilon e"
  "total_shots (store_inprods l ips e) = total_shots e"
  "show_snapshots_ket (store_inprods l ips e) = show_snapshots_ket e"
  "show_snapshots_density (store_inprods l ips e) = show_snapshots_density e"
  "show_snapshots_probs (store_inprods l ips e) = show_snapshots_probs e"
  "show_snapshots_probs_ket (store_inprods l ips e) = show_snapshots_probs_ket e"
  "show_snapshots_inner_product (store_inprods l ips e) = show_snapshots_inner_product e"
  "show_snapshots_overlaps (store_inprods l ips e) = show_snapshots_overlaps e"
  "target_states (store_inprods l ips e) = target_states e"
  by (simp_all add: store_inprods_def)

lemma store_inprods_data [simp]:
  "snapshots_ket (store_inprods l ips e) = snapshots_ket e"
  "snapshots_density (store_inprods l ips e) = snapshots_density e"
  "snapshots_probs (store_inprods l ips e) = snapshots_probs e"
  "snapshots_probs_ket (store_inprods l ips e) = snapshots_probs_ket e"
  "snapshots_inprods (store_inprods l ips e) =
     (if show_snapshots_inner_product e
      then fmupd l (map_at (snapshots_inprods e) l [] @ [ips]) (snapshots_inprods e)
      else snapshots_inprods e)"
  "snapshots_overlaps (store_inprods l ips e) =
     (if show_snapshots_overlaps e
      then fmupd l (vector_add (map_at (snapshots_overlaps e) l []) (get_probs_vec ips))
             (snapshots_overlaps e)
      else snapshots_overlaps e)"
  by (simp_all add: store_inprods_def)

lemma same_config_refl [simp]: "same_config e e"
  by (simp add: same_config_def)

lemma compute_inner_config:
  "same_config (engine_of (compute_inner n xs e)) e"
proof -
  have "(\<lambda>e'. same_config e' e) (engine_of (compute_inner n xs e)) = (\<lambda>e'. same_config e' e) e"
    by (rule compute_inner_preserves) (simp add: same_config_def)
  then show ?thesis by simp
qed

lemma compute_inner_frame:
  "total_shots (engine_of (compute_inner n xs e)) = total_shots e"
  "snapshots_ket (engine_of (compute_inner n xs e)) = snapshots_ket e"
  "snapshots_density (engine_of (compute_inner n xs e)) = snapshots_density e"
  "snapshots_probs (engine_of (compute_inner n xs e)) = snapshots_probs e"
  "snapshots_probs_ket (engine_of (compute_inner n xs e)) = snapshots_probs_ket e"
  by (rule compute_inner_preserves, simp)+

lemma compute_inner_inprods_off:
  assumes "\<not> show_snapshots_inner_product e"
  shows "snapshots_inprods (engine_of (compute_inner n xs e)) = snapshots_inprods e"
proof -
  let ?F = "\<lambda>e. (show_snapshots_inner_product e,
                 if show_snapshots_inner_product e then fmempty else snapshots_inprods e)"
  have "?F (engine_of (compute_inner n xs e)) = ?F e"
    by (rule compute_inner_preserves) simp
  with assms show ?thesis by (simp split: if_splits)
qed

lemma compute_inner_overlaps_off:
  assumes "\<not> show_snapshots_overlaps e"
  shows "snapshots_overlaps (engine_of (compute_inner n xs e)) = snapshots_overlaps e"
proof -
  let ?F = "\<lambda>e. (show_snapshots_overlaps e,
                 if show_snapshots_overlaps e then fmempty else snapshots_overlaps e)"
  have "?F (engine_of (compute_inner n xs e)) = ?F e"
    by (rule compute_inner_preserves) simp
  with assms show ?thesis by (simp split: if_splits)
qed

lemma compute_inner_fail:
  "\<not> list_all (\<lambda>(l, psi). sizes_match (target_states e) psi) xs \<Longrightarrow>
   isl (compute_inner n xs e)"
proof (induction xs arbitrary: e)
  case Nil
  then show ?case by simp
next
  case (Cons x xs)
  obtain l psi where x: "x = (l, psi)" by (cases x)
  show ?case
  proof (cases "sizes_match (target_states e) psi")
    case True
    with Cons.prems x
    have "\<not> list_all (\<lambda>(l, psi). sizes_match (target_states e) psi) xs"
      by simp
    with Cons.IH [of "store_inprods l (inprods_of (epsilon e) (target_states e) psi) e"]
    show ?thesis
      by (simp add: x compute_inprods_ok [OF True])
  next
    case False
    from compute_inprods_fail [OF this, of "epsilon e" n "[]"] show ?thesis
      by (auto simp: x)
  qed
qed

lemma compute_inner_ok:
  "list_all (\<lambda>(l, psi). sizes_match (target_states e) psi) xs \<Longrightarrow>
   \<exists>e'. compute_inner n xs e = Inr e' \<and>
     snapshots_inprods e' =
       (if show_snapshots_inner_product e
        then fold (\<lambda>(l, psi) m.
                    fmupd l (map_at m l [] @ [inprods_of (epsilon e) (target_states e) psi]) m)
               xs (snapshots_inprods e)
        else snapshots_inprods e) \<and>
     snapshots_overlaps e' =
       (if show_snapshots_overlaps e
        then fold (\<lambda>(l, psi) m.
                    fmupd l (vector_add (map_at m l [])
                      (get_probs_vec (inprods_of (epsilon e) (target_states e) psi))) m)
               xs (snapshots_overlaps e)
        else snapshots_overlaps e)"
proof (induction xs arbitrary: e)
  case Nil
  then show ?case by simp
next
  case (Cons x xs)
  obtain l psi where x: "x = (l, psi)" by (cases x)
  from Cons.prems x have ok: "sizes_match (target_states e) psi"
    and rest: "list_all (\<lambda>(l, psi). sizes_match (target_states e) psi) xs"
    by simp_all
  from Cons.IH [of "store_inprods l (inprods_of (epsilon e) (target_states e) psi) e"] rest
  show ?case
    by (cases "show_snapshots_inner_product e"; cases "show_snapshots_overlaps e")
       (simp_all add: x compute_inprods_ok [OF ok])
qed

subsection \<open>The blocks of one shot\<close>

lemma compute_ket_fields [simp]:
  "total_shots (compute_ket v regs s e) = total_shots e"
  "qudit_dim (compute_ket v regs s e) = qudit_dim e"
  "epsilon (compute_ket v regs s e) = epsilon e"
  "show_snapshots_ket (compute_ket v regs s e) = show_snapshots_ket e"
  "show_snapshots_density (compute_ket v regs s e) = show_snapshots_density e"
  "show_snapshots_probs (compute_ket v regs s e) = show_snapshots_probs e"
  "show_snapshots_probs_ket (compute_ket v regs s e) = show_snapshots_probs_ket e"
  "show_snapshots_inner_product (compute_ket v regs s e) = show_snapshots_inner_product e"
  "show_snapshots_overlaps (compute_ket v regs s e) = show_snapshots_overlaps e"
  "target_states (compute_ket v regs s e) = target_states e"
  "snapshots_density (compute_ket v regs s e) = snapshots_density e"
  "snapshots_probs (compute_ket v regs s e) = snapshots_probs e"
  "snapshots_inprods (compute_ket v regs s e) = snapshots_inprods e"
  "snapshots_overlaps (compute_ket v regs s e) = snapshots_overlaps e"
  by (simp_all add: compute_ket_def Let_def)

lemma compute_ket_ket:
  "snapshots_ket (compute_ket v regs s e) =
     (if show_snapshots_ket e
      then snapshots_ket e @ [fmmap (\<lambda>psi. v psi (qudit_dim e) (epsilon e) regs) (qreg_snapshots s)]
      else snapshots_ket e)"
  by (simp add: compute_ket_def Let_def add_entries_map)

lemma compute_ket_probs_ket:
  "snapshots_probs_ket (compute_ket v regs s e) =
     (if show_snapshots_probs_ket e
      then add_entries (\<lambda>mine psi. rket_add mine
             (get_probs_ket (v psi (qudit_dim e) (epsilon e) regs)))
             fmempty (qreg_snapshots s) (snapshots_probs_ket e)
      else snapshots_probs_ket e)"
proof -
  have "add_entries (\<lambda>mine ket. rket_add mine (get_probs_ket ket)) fmempty
          (fmmap g snaps) old =
        add_entries (\<lambda>mine psi. rket_add mine (get_probs_ket (g psi))) fmempty snaps old"
    for g :: "QubitVector \<Rightarrow> cket_t" and snaps old
    by (rule fmap_ext) (simp add: add_entries_lookup split: option.splits)
  then show ?thesis
    by (simp add: compute_ket_def Let_def add_entries_map get_probs_ket_def [symmetric])
qed

lemma compute_density_fields [simp]:
  "total_shots (compute_density s e) = total_shots e"
  "qudit_dim (compute_density s e) = qudit_dim e"
  "epsilon (compute_density s e) = epsilon e"
  "show_snapshots_ket (compute_density s e) = show_snapshots_ket e"
  "show_snapshots_density (compute_density s e) = show_snapshots_density e"
  "show_snapshots_probs (compute_density s e) = show_snapshots_probs e"
  "show_snapshots_probs_ket (compute_density s e) = show_snapshots_probs_ket e"
  "show_snapshots_inner_product (compute_density s e) = show_snapshots_inner_product e"
  "show_snapshots_overlaps (compute_density s e) = show_snapshots_overlaps e"
  "target_states (compute_density s e) = target_states e"
  "snapshots_ket (compute_density s e) = snapshots_ket e"
  "snapshots_probs (compute_density s e) = snapshots_probs e"
  "snapshots_probs_ket (compute_density s e) = snapshots_probs_ket e"
  "snapshots_inprods (compute_density s e) = snapshots_inprods e"
  "snapshots_overlaps (compute_density s e) = snapshots_overlaps e"
  by (simp_all add: compute_density_def)

lemma compute_density_density:
  "snapshots_density (compute_density s e) =
     (if show_snapshots_density e
      then add_entries (\<lambda>rho psi. density_add rho (outer_product psi psi)) []
             (qreg_snapshots s) (snapshots_density e)
      else snapshots_density e)"
  by (simp add: compute_density_def density_add_def)

lemma compute_probs_fields [simp]:
  "total_shots (compute_probs s e) = total_shots e"
  "qudit_dim (compute_probs s e) = qudit_dim e"
  "epsilon (compute_probs s e) = epsilon e"
  "show_snapshots_ket (compute_probs s e) = show_snapshots_ket e"
  "show_snapshots_density (compute_probs s e) = show_snapshots_density e"
  "show_snapshots_probs (compute_probs s e) = show_snapshots_probs e"
  "show_snapshots_probs_ket (compute_probs s e) = show_snapshots_probs_ket e"
  "show_snapshots_inner_product (compute_probs s e) = show_snapshots_inner_product e"
  "show_snapshots_overlaps (compute_probs s e) = show_snapshots_overlaps e"
  "target_states (compute_probs s e) = target_states e"
  "snapshots_ket (compute_probs s e) = snapshots_ket e"
  "snapshots_density (compute_probs s e) = snapshots_density e"
  "snapshots_probs_ket (compute_probs s e) = snapshots_probs_ket e"
  "snapshots_inprods (compute_probs s e) = snapshots_inprods e"
  "snapshots_overlaps (compute_probs s e) = snapshots_overlaps e"
  by (simp_all add: compute_probs_def)

lemma compute_probs_probs:
  "snapshots_probs (compute_probs s e) =
     (if show_snapshots_probs e
      then add_entries (\<lambda>pr psi. vector_add pr (get_probs_vec psi)) []
             (qreg_snapshots s) (snapshots_probs e)
      else snapshots_probs e)"
proof -
  have "(\<lambda>pr psi. if pr = [] then get_probs_vec psi else vector_add pr (get_probs_vec psi)) =
        (\<lambda>pr psi. vector_add pr (get_probs_vec psi))"
    by (auto simp: fun_eq_iff)
  then show ?thesis by (simp add: compute_probs_def)
qed

text \<open>The three ways through \<open>compute_results\<close>.\<close>

lemma compute_results_cases:
  fixes v s e
  defines "regs \<equiv> (if show_snapshots_ket e \<or> show_snapshots_probs_ket e
                    then map snd (rev (qubit_sizes s)) else [])"
  defines "e3 \<equiv> compute_probs s (compute_density s (compute_ket v regs s e))"
  obtains
    (skip) "snapshots_empty s" "compute_results v s e = Inr e"
  | (plain) "\<not> snapshots_empty s"
      "\<not> (target_states e \<noteq> [] \<and> (show_snapshots_inner_product e \<or> show_snapshots_overlaps e))"
      "compute_results v s e = Inr e3"
  | (inner) "\<not> snapshots_empty s" "target_states e \<noteq> []"
      "show_snapshots_inner_product e \<or> show_snapshots_overlaps e"
      "compute_results v s e =
         compute_inner (length (qreg s)) (sorted_list_of_fmap (qreg_snapshots s)) e3"
proof -
  have unf: "compute_results v s e =
     (if \<not> snapshots_empty s then
        if target_states e \<noteq> [] \<and> (show_snapshots_inner_product e \<or> show_snapshots_overlaps e)
        then compute_inner (length (qreg s)) (sorted_list_of_fmap (qreg_snapshots s)) e3
        else Inr e3
      else Inr e)"
    by (simp add: compute_results_def Let_def e3_def regs_def)
  show thesis
  proof (cases "snapshots_empty s")
    case True
    with unf have "compute_results v s e = Inr e" by simp
    with True show ?thesis by (rule skip)
  next
    case ne: False
    show ?thesis
    proof (cases "target_states e \<noteq> [] \<and> (show_snapshots_inner_product e \<or> show_snapshots_overlaps e)")
      case True
      with unf ne have "compute_results v s e =
         compute_inner (length (qreg s)) (sorted_list_of_fmap (qreg_snapshots s)) e3" by auto
      with ne True show ?thesis by (intro inner) auto
    next
      case False
      with unf ne have "compute_results v s e = Inr e3" by auto
      with ne False show ?thesis by (rule plain)
    qed
  qed
qed

subsection \<open>One shot, sum by sum\<close>

lemma add_entries_density_add:
  "fmlookup (add_entries (\<lambda>rho w. density_add rho (g w)) [] other mine) l =
     osum density_add (fmlookup mine l) (map_option g (fmlookup other l))"
  by (rule add_entries_osum_map) simp

lemma add_entries_vector_add:
  "fmlookup (add_entries (\<lambda>pr w. vector_add pr (g w)) [] other mine) l =
     osum vector_add (fmlookup mine l) (map_option g (fmlookup other l))"
  by (rule add_entries_osum_map) simp

lemma add_entries_rket_add:
  "fmlookup (add_entries (\<lambda>r w. rket_add r (g w)) fmempty other mine) l =
     osum rket_add (fmlookup mine l) (map_option g (fmlookup other l))"
  by (rule add_entries_osum_map) simp

lemma compute_results_throws: "isl (compute_results v s e) \<longleftrightarrow> shot_throws e s"
proof (cases rule: compute_results_cases [where v=v and s=s and e=e])
  case skip
  then show ?thesis by (simp add: shot_throws_def)
next
  case plain
  then show ?thesis by (auto simp: shot_throws_def)
next
  case inner
  let ?e3 = "compute_probs s (compute_density s (compute_ket v
      (if show_snapshots_ket e \<or> show_snapshots_probs_ket e then map snd (rev (qubit_sizes s)) else [])
      s e))"
  have ts: "target_states ?e3 = target_states e" by simp
  show ?thesis
  proof (cases "list_all (\<lambda>(l, psi). sizes_match (target_states e) psi)
                  (sorted_list_of_fmap (qreg_snapshots s))")
    case True
    with compute_inner_ok [of ?e3 "sorted_list_of_fmap (qreg_snapshots s)" "length (qreg s)"] ts inner
    show ?thesis by (auto simp: shot_throws_def)
  next
    case False
    with compute_inner_fail [of ?e3 "sorted_list_of_fmap (qreg_snapshots s)" "length (qreg s)"] ts inner
    show ?thesis by (auto simp: shot_throws_def)
  qed
qed

lemma compute_results_config: "same_config (engine_of (compute_results v s e)) e"
proof (cases rule: compute_results_cases [where v=v and s=s and e=e])
  case skip
  then show ?thesis by simp
next
  case plain
  then show ?thesis by (simp add: same_config_def)
next
  case inner
  let ?e3 = "compute_probs s (compute_density s (compute_ket v
      (if show_snapshots_ket e \<or> show_snapshots_probs_ket e then map snd (rev (qubit_sizes s)) else [])
      s e))"
  have "same_config ?e3 e" by (simp add: same_config_def)
  with compute_inner_config [of "length (qreg s)" "sorted_list_of_fmap (qreg_snapshots s)" ?e3]
  show ?thesis using inner by (simp add: same_config_def)
qed

lemma compute_results_density:
  "fmlookup (snapshots_density (engine_of (compute_results v s e))) l =
     osum density_add (fmlookup (snapshots_density e) l) (contrib_density e s l)"
proof (cases rule: compute_results_cases [where v=v and s=s and e=e])
  case skip
  then show ?thesis by (simp add: contrib_density_def)
next
  case plain
  then show ?thesis
    by (simp add: contrib_density_def compute_density_density add_entries_density_add)
next
  case inner
  then show ?thesis
    by (simp add: contrib_density_def compute_inner_frame compute_density_density
        add_entries_density_add)
qed

lemma compute_results_probs:
  "fmlookup (snapshots_probs (engine_of (compute_results v s e))) l =
     osum vector_add (fmlookup (snapshots_probs e) l) (contrib_probs e s l)"
proof (cases rule: compute_results_cases [where v=v and s=s and e=e])
  case skip
  then show ?thesis by (simp add: contrib_probs_def)
next
  case plain
  then show ?thesis
    by (simp add: contrib_probs_def compute_probs_probs add_entries_vector_add)
next
  case inner
  then show ?thesis
    by (simp add: contrib_probs_def compute_inner_frame compute_probs_probs
        add_entries_vector_add)
qed

lemma compute_results_probs_ket:
  "fmlookup (snapshots_probs_ket (engine_of (compute_results v s e))) l =
     osum rket_add (fmlookup (snapshots_probs_ket e) l) (contrib_probs_ket v e s l)"
proof (cases rule: compute_results_cases [where v=v and s=s and e=e])
  case skip
  then show ?thesis by (simp add: contrib_probs_ket_def)
next
  case plain
  then show ?thesis
    by (simp add: contrib_probs_ket_def compute_ket_probs_ket add_entries_rket_add)
next
  case inner
  then show ?thesis
    by (simp add: contrib_probs_ket_def compute_inner_frame compute_ket_probs_ket
        add_entries_rket_add)
qed

lemma compute_results_overlaps:
  assumes "compute_results v s e = Inr e'"
  shows "fmlookup (snapshots_overlaps e') l =
     osum vector_add (fmlookup (snapshots_overlaps e) l) (contrib_overlaps e s l)"
proof (cases rule: compute_results_cases [where v=v and s=s and e=e])
  case skip
  with assms show ?thesis by (simp add: contrib_overlaps_def)
next
  case plain
  with assms show ?thesis by (auto simp: contrib_overlaps_def)
next
  case inner
  let ?e3 = "compute_probs s (compute_density s (compute_ket v
      (if show_snapshots_ket e \<or> show_snapshots_probs_ket e then map snd (rev (qubit_sizes s)) else [])
      s e))"
  let ?xs = "sorted_list_of_fmap (qreg_snapshots s)"
  have "\<not> shot_throws e s"
    using compute_results_throws [of v s e] assms by simp
  with inner have ok: "list_all (\<lambda>(l, psi). sizes_match (target_states ?e3) psi) ?xs"
    by (simp add: shot_throws_def)
  from compute_inner_ok [OF ok, of "length (qreg s)"] inner(4) assms
  have "snapshots_overlaps e' =
       (if show_snapshots_overlaps e
        then add_entries (\<lambda>mine psi. vector_add mine
               (get_probs_vec (inprods_of (epsilon e) (target_states e) psi)))
               [] (qreg_snapshots s) (snapshots_overlaps e)
        else snapshots_overlaps e)"
    by (auto simp: add_entries_def)
  with inner show ?thesis
    by (simp add: contrib_overlaps_def add_entries_vector_add)
qed

subsection \<open>Runs and plans\<close>

lemma same_config_sym: "same_config a b \<Longrightarrow> same_config b a"
  by (simp add: same_config_def)

lemma same_config_trans: "same_config a b \<Longrightarrow> same_config b c \<Longrightarrow> same_config a c"
  by (simp add: same_config_def)

lemma contrib_same_config:
  assumes "same_config a b"
  shows "contrib_density a s l = contrib_density b s l"
    and "contrib_probs a s l = contrib_probs b s l"
    and "contrib_probs_ket v a s l = contrib_probs_ket v b s l"
    and "contrib_overlaps a s l = contrib_overlaps b s l"
    and "shot_throws a s = shot_throws b s"
  using assms
  by (simp_all add: same_config_def contrib_density_def contrib_probs_def
      contrib_probs_ket_def contrib_overlaps_def shot_throws_def)

lemma run_shots_config: "run_shots v ss e = Inr e' \<Longrightarrow> same_config e' e"
proof (induction ss arbitrary: e)
  case Nil
  then show ?case by simp
next
  case (Cons s ss)
  then obtain e1 where e1: "compute_results v s e = Inr e1" and r: "run_shots v ss e1 = Inr e'"
    by (auto split: sum.splits)
  from compute_results_config [of v s e] e1 have "same_config e1 e" by simp
  with Cons.IH [OF r] show ?case by (rule same_config_trans)
qed

lemma run_shots_throws: "isl (run_shots v ss e) \<longleftrightarrow> (\<exists>s \<in> set ss. shot_throws e s)"
proof (induction ss arbitrary: e)
  case Nil
  then show ?case by simp
next
  case (Cons s ss)
  show ?case
  proof (cases "compute_results v s e")
    case (Inl x)
    with compute_results_throws [of v s e] show ?thesis by simp
  next
    case (Inr e1)
    from compute_results_config [of v s e] Inr have sc: "same_config e1 e" by simp
    from compute_results_throws [of v s e] Inr have "\<not> shot_throws e s" by simp
    with Cons.IH [of e1] Inr contrib_same_config(5) [OF sc] show ?thesis by simp
  qed
qed

lemma run_shots_sum:
  fixes fld :: "VectorEngine \<Rightarrow> (uint_t, 'a) fmap"
    and c :: "VectorEngine \<Rightarrow> Shot \<Rightarrow> uint_t \<Rightarrow> 'a option"
  assumes alg: "assoc_on Q f"
    and step: "\<And>s e e'. compute_results v s e = Inr e' \<Longrightarrow>
                 fmlookup (fld e') l = osum f (fmlookup (fld e) l) (c e s l)"
    and cfg: "\<And>a b s. same_config a b \<Longrightarrow> c a s l = c b s l"
  shows "run_shots v ss e = Inr e' \<Longrightarrow> opred Q (fmlookup (fld e) l) \<Longrightarrow>
         list_all (\<lambda>s. opred Q (c e s l)) ss \<Longrightarrow>
         fmlookup (fld e') l = osum f (fmlookup (fld e) l) (osum_list f (map (\<lambda>s. c e s l) ss))"
proof (induction ss arbitrary: e)
  case Nil
  then show ?case by simp
next
  case (Cons s ss)
  from Cons.prems(1) obtain e1 where e1: "compute_results v s e = Inr e1"
    and r: "run_shots v ss e1 = Inr e'"
    by (auto split: sum.splits)
  from compute_results_config [of v s e] e1 have sc: "same_config e1 e" by simp
  have ceq: "c e1 t l = c e t l" for t by (rule cfg [OF sc])
  from Cons.prems(3) have qs: "opred Q (c e s l)" and qss: "list_all (\<lambda>s. opred Q (c e s l)) ss"
    by simp_all
  have q1: "opred Q (fmlookup (fld e1) l)"
    using step [OF e1] osum_closed [OF alg Cons.prems(2) qs] by simp
  have qrest: "opred Q (osum_list f (map (\<lambda>s. c e s l) ss))"
    using qss by (intro osum_list_closed [OF alg]) (simp add: list_all_iff)
  have "fmlookup (fld e') l = osum f (fmlookup (fld e1) l) (osum_list f (map (\<lambda>s. c e s l) ss))"
    using Cons.IH [OF r q1] qss by (simp add: ceq)
  also have "\<dots> = osum f (osum f (fmlookup (fld e) l) (c e s l))
                      (osum_list f (map (\<lambda>s. c e s l) ss))"
    by (simp add: step [OF e1])
  also have "\<dots> = osum f (fmlookup (fld e) l)
                      (osum f (c e s l) (osum_list f (map (\<lambda>s. c e s l) ss)))"
    by (rule osum_assoc [OF alg Cons.prems(2) qs qrest])
  finally show ?case by simp
qed

lemma run_plan_throws:
  "isl (run_plan v cfg p) \<longleftrightarrow> (\<exists>s \<in> set (shots_of p). shot_throws cfg s)"
proof (induction p)
  case (Group g)
  from run_shots_throws [of v g cfg] show ?case
    by (auto split: sum.splits)
next
  case (Merge a b)
  then show ?case by (auto split: sum.splits)
qed

lemma run_plan_sum:
  fixes fld :: "VectorEngine \<Rightarrow> (uint_t, 'a) fmap"
    and c :: "VectorEngine \<Rightarrow> Shot \<Rightarrow> uint_t \<Rightarrow> 'a option"
  assumes alg: "assoc_on Q f"
    and step: "\<And>s e e'. compute_results v s e = Inr e' \<Longrightarrow>
                 fmlookup (fld e') l = osum f (fmlookup (fld e) l) (c e s l)"
    and cfg: "\<And>a b s. same_config a b \<Longrightarrow> c a s l = c b s l"
    and merge: "\<And>a b. fmlookup (fld (VectorEngine_add a b)) l =
                  osum f (fmlookup (fld a) l) (fmlookup (fld b) l)"
    and empty: "fld cfg0 = fmempty"
  shows "run_plan v cfg0 p = Inr e' \<Longrightarrow>
         list_all (\<lambda>s. opred Q (c cfg0 s l)) (shots_of p) \<Longrightarrow>
         fmlookup (fld e') l = osum_list f (map (\<lambda>s. c cfg0 s l) (shots_of p))"
proof (induction p arbitrary: e')
  case (Group g)
  then have r: "run_shots v g cfg0 = Inr e'" by (auto split: sum.splits)
  from run_shots_sum [where fld = fld and c = c and l = l and f = f and Q = Q, OF alg step cfg r] Group.prems(2) empty
  show ?case by simp
next
  case (Merge a b)
  from Merge.prems(1) obtain ea eb where ea: "run_plan v cfg0 a = Inr ea"
    and eb: "run_plan v cfg0 b = Inr eb" and e': "e' = VectorEngine_add ea eb"
    by (auto split: sum.splits)
  from Merge.prems(2) have qa: "list_all (\<lambda>s. opred Q (c cfg0 s l)) (shots_of a)"
    and qb: "list_all (\<lambda>s. opred Q (c cfg0 s l)) (shots_of b)" by simp_all
  have "osum_list f (map (\<lambda>s. c cfg0 s l) (shots_of a) @ map (\<lambda>s. c cfg0 s l) (shots_of b)) =
        osum f (osum_list f (map (\<lambda>s. c cfg0 s l) (shots_of a)))
               (osum_list f (map (\<lambda>s. c cfg0 s l) (shots_of b)))"
    using qa qb by (intro osum_list_append [OF alg]) (simp_all add: list_all_iff)
  with Merge.IH(1) [OF ea qa] Merge.IH(2) [OF eb qb] show ?case
    by (simp add: e' merge)
qed

subsection \<open>Merging and the sums\<close>

lemma VectorEngine_add_fields [simp]:
  "snapshots_ket (VectorEngine_add a b) = snapshots_ket a @ snapshots_ket b"
  "snapshots_density (VectorEngine_add a b) =
     add_entries density_add [] (snapshots_density b) (snapshots_density a)"
  "snapshots_probs (VectorEngine_add a b) =
     add_entries vector_add [] (snapshots_probs b) (snapshots_probs a)"
  "snapshots_probs_ket (VectorEngine_add a b) =
     add_entries rket_add fmempty (snapshots_probs_ket b) (snapshots_probs_ket a)"
  "snapshots_overlaps (VectorEngine_add a b) =
     add_entries vector_add [] (snapshots_overlaps b) (snapshots_overlaps a)"
  "snapshots_inprods (VectorEngine_add a b) =
     add_entries (\<lambda>mine theirs. mine @ theirs) [] (snapshots_inprods b) (snapshots_inprods a)"
  by (simp_all add: VectorEngine_add_def)

lemma VectorEngine_add_config [simp]: "same_config (VectorEngine_add a b) a"
  "total_shots (VectorEngine_add a b) = total_shots a"
  by (simp_all add: VectorEngine_add_def same_config_def)

lemma add_density_lookup:
  "fmlookup (snapshots_density (VectorEngine_add a b)) l =
     osum density_add (fmlookup (snapshots_density a) l) (fmlookup (snapshots_density b) l)"
  by (simp add: add_entries_osum)

lemma add_probs_lookup:
  "fmlookup (snapshots_probs (VectorEngine_add a b)) l =
     osum vector_add (fmlookup (snapshots_probs a) l) (fmlookup (snapshots_probs b) l)"
  by (simp add: add_entries_osum)

lemma add_probs_ket_lookup:
  "fmlookup (snapshots_probs_ket (VectorEngine_add a b)) l =
     osum rket_add (fmlookup (snapshots_probs_ket a) l) (fmlookup (snapshots_probs_ket b) l)"
  by (simp add: add_entries_osum)

lemma add_overlaps_lookup:
  "fmlookup (snapshots_overlaps (VectorEngine_add a b)) l =
     osum vector_add (fmlookup (snapshots_overlaps a) l) (fmlookup (snapshots_overlaps b) l)"
  by (simp add: add_entries_osum)

lemma square_outer_product: "length psi = n \<Longrightarrow> square n (outer_product psi psi)"
  by (auto simp: square_def outer_product_def)

lemma length_get_probs_vec [simp]: "length (get_probs_vec v) = length v"
  by (simp add: get_probs_vec_map)

lemma length_inprods_of [simp]: "length (inprods_of eps ts psi) = length ts"
  by (simp add: inprods_of_def)

lemma contrib_density_square: "shot_dim n s \<Longrightarrow> opred (square n) (contrib_density cfg s l)"
  by (auto simp: contrib_density_def shot_dim_def opred_def square_outer_product
      split: option.splits)

lemma contrib_probs_length:
  "shot_dim n s \<Longrightarrow> opred (\<lambda>v. length v = n) (contrib_probs cfg s l)"
  by (auto simp: contrib_probs_def shot_dim_def opred_def split: option.splits)

lemma contrib_overlaps_length:
  "opred (\<lambda>v. length v = length (target_states cfg)) (contrib_overlaps cfg s l)"
  by (auto simp: contrib_overlaps_def opred_def split: option.splits)

text \<open>One sum at a time: a run on one engine and a plan with the same shots agree.\<close>
lemma direct_eq_plan:
  fixes fld :: "VectorEngine \<Rightarrow> (uint_t, 'a) fmap"
    and c :: "VectorEngine \<Rightarrow> Shot \<Rightarrow> uint_t \<Rightarrow> 'a option"
  assumes alg: "comm_on Q f"
    and step: "\<And>s e e' l. compute_results v s e = Inr e' \<Longrightarrow>
                 fmlookup (fld e') l = osum f (fmlookup (fld e) l) (c e s l)"
    and cfg: "\<And>a b s l. same_config a b \<Longrightarrow> c a s l = c b s l"
    and merge: "\<And>a b l. fmlookup (fld (VectorEngine_add a b)) l =
                  osum f (fmlookup (fld a) l) (fmlookup (fld b) l)"
    and empty: "fld cfg0 = fmempty"
    and q: "\<And>s l. s \<in> set shots \<Longrightarrow> opred Q (c cfg0 s l)"
    and perm: "mset (shots_of p) = mset shots"
    and direct: "run_shots v shots cfg0 = Inr e1"
    and plan: "run_plan v cfg0 p = Inr e2"
  shows "fld e2 = fld e1"
proof (rule fmap_ext)
  fix l
  have seteq: "set (shots_of p) = set shots"
    using perm by (metis set_mset_mset)
  have q1: "list_all (\<lambda>s. opred Q (c cfg0 s l)) shots"
    using q by (simp add: list_all_iff)
  have q2: "list_all (\<lambda>s. opred Q (c cfg0 s l)) (shots_of p)"
    using q seteq by (simp add: list_all_iff)
  have d: "fmlookup (fld e1) l = osum_list f (map (\<lambda>s. c cfg0 s l) shots)"
    using run_shots_sum [where fld = fld and c = c and l = l and f = f and Q = Q,
        OF comm_on_assoc_on [OF alg] step cfg direct _ q1] empty by simp
  have m: "fmlookup (fld e2) l = osum_list f (map (\<lambda>s. c cfg0 s l) (shots_of p))"
    using run_plan_sum [where fld = fld and c = c and l = l and f = f and Q = Q,
        OF comm_on_assoc_on [OF alg] step cfg merge empty plan q2] .
  have "mset (map (\<lambda>s. c cfg0 s l) (shots_of p)) = mset (map (\<lambda>s. c cfg0 s l) shots)"
    using perm by (metis mset_map)
  moreover have "list_all (opred Q) (map (\<lambda>s. c cfg0 s l) (shots_of p))"
    using q2 by (simp add: list_all_iff)
  ultimately have "osum_list f (map (\<lambda>s. c cfg0 s l) (shots_of p)) =
      osum_list f (map (\<lambda>s. c cfg0 s l) shots)"
    by (rule osum_list_mset [OF alg])
  with d m show "fmlookup (fld e2) l = fmlookup (fld e1) l" by simp
qed

subsection \<open>Merging with an engine without results\<close>

lemma add_entries_append_at:
  "map_at (add_entries (@) [] other mine) l [] = map_at mine l [] @ map_at other l []"
  by (simp add: map_at_def add_entries_lookup split: option.splits)

lemma add_entries_empty_other: "add_entries f d fmempty mine = mine"
  by (simp add: add_entries_def entries_empty)

lemma add_entries_empty_mine:
  assumes "\<And>v. f d v = v"
  shows "add_entries f d other fmempty = other"
  by (rule fmap_ext) (simp add: add_entries_osum [of f d, OF assms])

lemma VectorEngine_new_fields [simp]:
  "snapshots_ket (VectorEngine_new d) = []"
  "snapshots_density (VectorEngine_new d) = fmempty"
  "snapshots_probs (VectorEngine_new d) = fmempty"
  "snapshots_probs_ket (VectorEngine_new d) = fmempty"
  "snapshots_inprods (VectorEngine_new d) = fmempty"
  "snapshots_overlaps (VectorEngine_new d) = fmempty"
  by (simp_all add: VectorEngine_new_def)

subsection \<open>One shot: the lists, and the cases without change\<close>

lemma compute_results_ket:
  "snapshots_ket (engine_of (compute_results v s e)) =
     (if \<not> snapshots_empty s \<and> show_snapshots_ket e
      then snapshots_ket e @
             [fmmap (\<lambda>psi. v psi (qudit_dim e) (epsilon e) (map snd (rev (qubit_sizes s))))
                (qreg_snapshots s)]
      else snapshots_ket e)"
proof (cases rule: compute_results_cases [where v=v and s=s and e=e])
  case skip
  then show ?thesis by simp
next
  case plain
  then show ?thesis by (simp add: compute_ket_ket)
next
  case inner
  then show ?thesis by (simp add: compute_inner_frame compute_ket_ket)
qed

lemma compute_results_inprods_same:
  assumes "\<not> show_snapshots_inner_product e \<or> snapshots_empty s \<or> target_states e = [] \<or>
           qreg_snapshots s = fmempty"
  shows "snapshots_inprods (engine_of (compute_results v s e)) = snapshots_inprods e"
proof (cases rule: compute_results_cases [where v=v and s=s and e=e])
  case skip
  then show ?thesis by simp
next
  case plain
  then show ?thesis by simp
next
  case inner
  show ?thesis
  proof (cases "qreg_snapshots s = fmempty")
    case True
    with inner show ?thesis by (simp add: entries_empty)
  next
    case False
    with assms inner have "\<not> show_snapshots_inner_product e" by simp
    with inner show ?thesis by (simp add: compute_inner_inprods_off)
  qed
qed

lemma compute_results_overlaps_same:
  assumes "\<not> show_snapshots_overlaps e \<or> snapshots_empty s \<or> target_states e = [] \<or>
           qreg_snapshots s = fmempty"
  shows "snapshots_overlaps (engine_of (compute_results v s e)) = snapshots_overlaps e"
proof (cases rule: compute_results_cases [where v=v and s=s and e=e])
  case skip
  then show ?thesis by simp
next
  case plain
  then show ?thesis by simp
next
  case inner
  show ?thesis
  proof (cases "qreg_snapshots s = fmempty")
    case True
    with inner show ?thesis by (simp add: entries_empty)
  next
    case False
    with assms inner have "\<not> show_snapshots_overlaps e" by simp
    with inner show ?thesis by (simp add: compute_inner_overlaps_off)
  qed
qed

lemma entries_Nil_iff: "sorted_list_of_fmap m = [] \<longleftrightarrow> m = fmempty"
proof
  assume "sorted_list_of_fmap m = []"
  then have "map_of (sorted_list_of_fmap m) = Map.empty" by simp
  then have "fmlookup m = Map.empty" by simp
  then show "m = fmempty" by (intro fmap_ext) simp
qed (simp add: entries_empty)

lemma entries_lookup:
  "(l, x) \<in> set (sorted_list_of_fmap m) \<longleftrightarrow> fmlookup m l = Some x"
  using map_of_eq_Some_iff [OF distinct_entries, of m l x] by simp




lemma Complex_one_zero: "Complex 1 0 = 1" "Complex 0 0 = 0"
  by (simp_all add: complex_eq_iff)

text \<open>The equations that evaluate a shot on a small input.\<close>

lemmas eval_defs = compute_results_def compute_ket_def compute_density_def compute_probs_def
  store_inprods_def add_entries_def entries_single entries_empty example_shot_def
  VectorEngine_new_def map_at_def vector_add_def get_probs_vec_def get_probs_def
  outer_product_def matrix_size_simps matrix_add_def inner_product_def chop_complex_def chop_real_def
  Let_def

subsection \<open>The fields of the document\<close>

text \<open>No block writes to the engine or to \<open>renorm\<close>.\<close>

lemma json_blocks_engine [simp]:
  "var_eng (json_ket \<sigma>) = var_eng \<sigma>" "var_renorm (json_ket \<sigma>) = var_renorm \<sigma>"
  "var_eng (json_density \<sigma>) = var_eng \<sigma>" "var_renorm (json_density \<sigma>) = var_renorm \<sigma>"
  "var_eng (json_probs \<sigma>) = var_eng \<sigma>" "var_renorm (json_probs \<sigma>) = var_renorm \<sigma>"
  "var_eng (json_probs_ket \<sigma>) = var_eng \<sigma>" "var_renorm (json_probs_ket \<sigma>) = var_renorm \<sigma>"
  "var_eng (json_inner_products \<sigma>) = var_eng \<sigma>"
  "var_renorm (json_inner_products \<sigma>) = var_renorm \<sigma>"
  "var_eng (json_overlaps \<sigma>) = var_eng \<sigma>" "var_renorm (json_overlaps \<sigma>) = var_renorm \<sigma>"
  by (simp_all add: json_ket_def json_density_def json_probs_def json_probs_ket_def
      json_inner_products_def json_overlaps_def Let_def)

lemma json_ket_fields [simp]:
  "quantum_state_ket (var_js (json_ket \<sigma>)) =
     (if show_snapshots_ket (var_eng \<sigma>) \<and> snapshots_ket (var_eng \<sigma>) \<noteq> []
      then Some (snapshots_ket (var_eng \<sigma>)) else quantum_state_ket (var_js \<sigma>))"
  "density_matrix (var_js (json_ket \<sigma>)) = density_matrix (var_js \<sigma>)"
  "probabilities (var_js (json_ket \<sigma>)) = probabilities (var_js \<sigma>)"
  "probabilities_ket (var_js (json_ket \<sigma>)) = probabilities_ket (var_js \<sigma>)"
  "inner_products (var_js (json_ket \<sigma>)) = inner_products (var_js \<sigma>)"
  "overlaps (var_js (json_ket \<sigma>)) = overlaps (var_js \<sigma>)"
  by (simp_all add: json_ket_def)

lemma json_density_fields [simp]:
  "quantum_state_ket (var_js (json_density \<sigma>)) = quantum_state_ket (var_js \<sigma>)"
  "density_matrix (var_js (json_density \<sigma>)) =
     (if show_snapshots_density (var_eng \<sigma>) \<and> snapshots_density (var_eng \<sigma>) \<noteq> fmempty
      then Some (fmmap (\<lambda>m. chop_cmatrix (epsilon (var_eng \<sigma>)) (matrix_scale m (var_renorm \<sigma>)))
                   (snapshots_density (var_eng \<sigma>)))
      else density_matrix (var_js \<sigma>))"
  "probabilities (var_js (json_density \<sigma>)) = probabilities (var_js \<sigma>)"
  "probabilities_ket (var_js (json_density \<sigma>)) = probabilities_ket (var_js \<sigma>)"
  "inner_products (var_js (json_density \<sigma>)) = inner_products (var_js \<sigma>)"
  "overlaps (var_js (json_density \<sigma>)) = overlaps (var_js \<sigma>)"
  by (simp_all add: json_density_def add_entries_map Let_def)

lemma json_probs_fields [simp]:
  "quantum_state_ket (var_js (json_probs \<sigma>)) = quantum_state_ket (var_js \<sigma>)"
  "density_matrix (var_js (json_probs \<sigma>)) = density_matrix (var_js \<sigma>)"
  "probabilities (var_js (json_probs \<sigma>)) =
     (if show_snapshots_probs (var_eng \<sigma>) \<and> snapshots_probs (var_eng \<sigma>) \<noteq> fmempty
      then Some (fmmap (\<lambda>v. chop_rvector (epsilon (var_eng \<sigma>)) (vector_scale v (var_renorm \<sigma>)))
                   (snapshots_probs (var_eng \<sigma>)))
      else probabilities (var_js \<sigma>))"
  "probabilities_ket (var_js (json_probs \<sigma>)) = probabilities_ket (var_js \<sigma>)"
  "inner_products (var_js (json_probs \<sigma>)) = inner_products (var_js \<sigma>)"
  "overlaps (var_js (json_probs \<sigma>)) = overlaps (var_js \<sigma>)"
  by (simp_all add: json_probs_def add_entries_map Let_def)

lemma json_probs_ket_fields [simp]:
  "quantum_state_ket (var_js (json_probs_ket \<sigma>)) = quantum_state_ket (var_js \<sigma>)"
  "density_matrix (var_js (json_probs_ket \<sigma>)) = density_matrix (var_js \<sigma>)"
  "probabilities (var_js (json_probs_ket \<sigma>)) = probabilities (var_js \<sigma>)"
  "probabilities_ket (var_js (json_probs_ket \<sigma>)) =
     (if show_snapshots_probs_ket (var_eng \<sigma>) \<and> snapshots_probs_ket (var_eng \<sigma>) \<noteq> fmempty
      then Some (fmmap (\<lambda>k. chop_rket (epsilon (var_eng \<sigma>)) (rket_scale k (var_renorm \<sigma>)))
                   (snapshots_probs_ket (var_eng \<sigma>)))
      else probabilities_ket (var_js \<sigma>))"
  "inner_products (var_js (json_probs_ket \<sigma>)) = inner_products (var_js \<sigma>)"
  "overlaps (var_js (json_probs_ket \<sigma>)) = overlaps (var_js \<sigma>)"
  by (simp_all add: json_probs_ket_def add_entries_map Let_def)

lemma json_inner_products_fields [simp]:
  "quantum_state_ket (var_js (json_inner_products \<sigma>)) = quantum_state_ket (var_js \<sigma>)"
  "density_matrix (var_js (json_inner_products \<sigma>)) = density_matrix (var_js \<sigma>)"
  "probabilities (var_js (json_inner_products \<sigma>)) = probabilities (var_js \<sigma>)"
  "probabilities_ket (var_js (json_inner_products \<sigma>)) = probabilities_ket (var_js \<sigma>)"
  "inner_products (var_js (json_inner_products \<sigma>)) =
     (if show_snapshots_inner_product (var_eng \<sigma>) \<and> snapshots_inprods (var_eng \<sigma>) \<noteq> fmempty
      then Some (snapshots_inprods (var_eng \<sigma>)) else inner_products (var_js \<sigma>))"
  "overlaps (var_js (json_inner_products \<sigma>)) = overlaps (var_js \<sigma>)"
  by (simp_all add: json_inner_products_def Let_def)

lemma json_overlaps_fields [simp]:
  "quantum_state_ket (var_js (json_overlaps \<sigma>)) = quantum_state_ket (var_js \<sigma>)"
  "density_matrix (var_js (json_overlaps \<sigma>)) = density_matrix (var_js \<sigma>)"
  "probabilities (var_js (json_overlaps \<sigma>)) = probabilities (var_js \<sigma>)"
  "probabilities_ket (var_js (json_overlaps \<sigma>)) = probabilities_ket (var_js \<sigma>)"
  "inner_products (var_js (json_overlaps \<sigma>)) = inner_products (var_js \<sigma>)"
  "overlaps (var_js (json_overlaps \<sigma>)) =
     (if show_snapshots_overlaps (var_eng \<sigma>) \<and> snapshots_overlaps (var_eng \<sigma>) \<noteq> fmempty
      then Some (fmmap (\<lambda>v. chop_rvector (epsilon (var_eng \<sigma>)) (vector_scale v (var_renorm \<sigma>)))
                   (snapshots_overlaps (var_eng \<sigma>)))
      else overlaps (var_js \<sigma>))"
  by (simp_all add: json_overlaps_def update_in_place_eq Let_def)

subsection \<open>Chopped inner products\<close>

lemma chop_real_idem [simp]: "chop_real eps (chop_real eps x) = chop_real eps x"
  by (simp add: chop_real_def)

lemma chop_complex_idem [simp]: "chop_complex eps (chop_complex eps z) = chop_complex eps z"
  by (simp add: chop_complex_def)

lemma chop_complex_fixed:
  "chop_complex eps c = c \<longleftrightarrow> (\<bar>Re c\<bar> < eps \<longrightarrow> Re c = 0) \<and> (\<bar>Im c\<bar> < eps \<longrightarrow> Im c = 0)"
  by (auto simp: chop_complex_def chop_real_def complex_eq_iff)

lemma fmpred_map_at: "fmpred (\<lambda>_. P) m \<Longrightarrow> P d \<Longrightarrow> P (map_at m l d)"
  by (cases "fmlookup m l") (auto simp: map_at_def)

lemma compute_results_inprods:
  assumes "compute_results v s e = Inr e'"
  shows "snapshots_inprods e' =
     (if \<not> snapshots_empty s \<and> target_states e \<noteq> [] \<and> show_snapshots_inner_product e
      then add_entries (\<lambda>mine psi. mine @ [inprods_of (epsilon e) (target_states e) psi]) []
             (qreg_snapshots s) (snapshots_inprods e)
      else snapshots_inprods e)"
proof (cases rule: compute_results_cases [where v=v and s=s and e=e])
  case skip
  with assms show ?thesis by simp
next
  case plain
  with assms show ?thesis by auto
next
  case inner
  let ?e3 = "compute_probs s (compute_density s (compute_ket v
      (if show_snapshots_ket e \<or> show_snapshots_probs_ket e then map snd (rev (qubit_sizes s)) else [])
      s e))"
  let ?xs = "sorted_list_of_fmap (qreg_snapshots s)"
  have "\<not> shot_throws e s"
    using compute_results_throws [of v s e] assms by simp
  with inner have ok: "list_all (\<lambda>(l, psi). sizes_match (target_states ?e3) psi) ?xs"
    by (simp add: shot_throws_def)
  from compute_inner_ok [OF ok, of "length (qreg s)"] inner assms
  show ?thesis by (auto simp: add_entries_def)
qed

text \<open>Every stored inner product is a fixed point of \<open>chop\<close>.\<close>

lemma inprods_chopped_step:
  assumes r: "compute_results v s e = Inr e'"
    and inv: "fmpred (\<lambda>_ xss. \<forall>xs \<in> set xss. \<forall>c \<in> set xs. chop_complex (epsilon e) c = c)
                (snapshots_inprods e)"
  shows "fmpred (\<lambda>_ xss. \<forall>xs \<in> set xss. \<forall>c \<in> set xs. chop_complex (epsilon e) c = c)
           (snapshots_inprods e')"
proof (rule fmpredI)
  fix l xss assume look: "fmlookup (snapshots_inprods e') l = Some xss"
  have new: "\<forall>c \<in> set (inprods_of (epsilon e) (target_states e) psi).
               chop_complex (epsilon e) c = c" for psi
    by (auto simp: inprods_of_def)
  show "\<forall>xs \<in> set xss. \<forall>c \<in> set xs. chop_complex (epsilon e) c = c"
  proof (cases "\<not> snapshots_empty s \<and> target_states e \<noteq> [] \<and> show_snapshots_inner_product e")
    case False
    with compute_results_inprods [OF r] look inv show ?thesis
      by auto
  next
    case True
    with compute_results_inprods [OF r] look
    have eq: "(case fmlookup (qreg_snapshots s) l of None \<Rightarrow> fmlookup (snapshots_inprods e) l
         | Some psi \<Rightarrow> Some (map_at (snapshots_inprods e) l [] @
                          [inprods_of (epsilon e) (target_states e) psi])) = Some xss"
      by (simp add: add_entries_lookup)
    show ?thesis
    proof (cases "fmlookup (qreg_snapshots s) l")
      case None
      with eq inv show ?thesis by auto
    next
      case (Some psi)
      with eq have xss: "xss = map_at (snapshots_inprods e) l [] @
          [inprods_of (epsilon e) (target_states e) psi]" by simp
      have old: "\<forall>xs \<in> set (map_at (snapshots_inprods e) l []). \<forall>c \<in> set xs.
                   chop_complex (epsilon e) c = c"
        using fmpred_map_at [OF inv, of "[]" l] by simp
      from old new [of psi] show ?thesis by (auto simp: xss)
    qed
  qed
qed

lemma inprods_chopped_run:
  "run_shots v ss e = Inr e' \<Longrightarrow>
   fmpred (\<lambda>_ xss. \<forall>xs \<in> set xss. \<forall>c \<in> set xs. chop_complex (epsilon e) c = c)
     (snapshots_inprods e) \<Longrightarrow>
   fmpred (\<lambda>_ xss. \<forall>xs \<in> set xss. \<forall>c \<in> set xs. chop_complex (epsilon e) c = c)
     (snapshots_inprods e')"
proof (induction ss arbitrary: e)
  case Nil
  then show ?case by simp
next
  case (Cons s ss)
  from Cons.prems(1) obtain e1 where e1: "compute_results v s e = Inr e1"
    and r: "run_shots v ss e1 = Inr e'"
    by (auto split: sum.splits)
  from compute_results_config [of v s e] e1 have eps: "epsilon e1 = epsilon e"
    by (simp add: same_config_def)
  from inprods_chopped_step [OF e1 Cons.prems(2)] Cons.IH [OF r] eps
  show ?case by simp
qed

lemma run_plan_config: "run_plan v cfg p = Inr e \<Longrightarrow> same_config e cfg"
proof (induction p arbitrary: e)
  case (Group g)
  then show ?case by (auto split: sum.splits dest: run_shots_config)
next
  case (Merge a b)
  then obtain ea eb where "run_plan v cfg a = Inr ea" "e = VectorEngine_add ea eb"
    by (auto split: sum.splits)
  with Merge.IH(1) [of ea] show ?case
    by (auto intro: same_config_trans [OF VectorEngine_add_config(1)])
qed

lemma inprods_chopped_plan:
  "run_plan v cfg p = Inr e \<Longrightarrow> no_results cfg \<Longrightarrow>
   fmpred (\<lambda>_ xss. \<forall>xs \<in> set xss. \<forall>c \<in> set xs. chop_complex (epsilon cfg) c = c)
     (snapshots_inprods e)"
proof (induction p arbitrary: e)
  case (Group g)
  then have r: "run_shots v g cfg = Inr e" by (auto split: sum.splits)
  from Group.prems(2) have "snapshots_inprods cfg = fmempty" by (simp add: no_results_def)
  with inprods_chopped_run [OF r] show ?case by simp
next
  case (Merge a b)
  from Merge.prems(1) obtain ea eb where ea: "run_plan v cfg a = Inr ea"
    and eb: "run_plan v cfg b = Inr eb" and e: "e = VectorEngine_add ea eb"
    by (auto split: sum.splits)
  note ia = Merge.IH(1) [OF ea Merge.prems(2)] and ib = Merge.IH(2) [OF eb Merge.prems(2)]
  show ?case
  proof (rule fmpredI)
    fix l xss assume "fmlookup (snapshots_inprods e) l = Some xss"
    then have "xss = map_at (snapshots_inprods ea) l [] @ map_at (snapshots_inprods eb) l []"
      using add_entries_append_at [of "snapshots_inprods eb" "snapshots_inprods ea" l]
      by (simp add: e map_at_def)
    moreover have "\<forall>xs \<in> set (map_at (snapshots_inprods ea) l []). \<forall>c \<in> set xs.
                   chop_complex (epsilon cfg) c = c"
      using fmpred_map_at [OF ia, of "[]" l] by simp
    moreover have "\<forall>xs \<in> set (map_at (snapshots_inprods eb) l []). \<forall>c \<in> set xs.
                   chop_complex (epsilon cfg) c = c"
      using fmpred_map_at [OF ib, of "[]" l] by simp
    ultimately show "\<forall>xs \<in> set xss. \<forall>c \<in> set xs. chop_complex (epsilon cfg) c = c"
      by auto
  qed
qed

subsection \<open>The tokens of the configuration\<close>

lemma from_json_option_flags:
  "show_snapshots_ket (from_json_option opt e) \<longleftrightarrow>
     show_snapshots_ket e \<or> string_trim (to_lowercase opt) = ''quantumstateket'' \<or>
     string_trim (to_lowercase opt) = ''quantumstatesket''"
  "show_snapshots_density (from_json_option opt e) \<longleftrightarrow>
     show_snapshots_density e \<or> string_trim (to_lowercase opt) = ''densitymatrix''"
  "show_snapshots_probs (from_json_option opt e) \<longleftrightarrow>
     show_snapshots_probs e \<or> string_trim (to_lowercase opt) = ''probabilities'' \<or>
     string_trim (to_lowercase opt) = ''probs''"
  "show_snapshots_probs_ket (from_json_option opt e) \<longleftrightarrow>
     show_snapshots_probs_ket e \<or> string_trim (to_lowercase opt) = ''probabilitiesket'' \<or>
     string_trim (to_lowercase opt) = ''probsket''"
  "show_snapshots_inner_product (from_json_option opt e) \<longleftrightarrow>
     show_snapshots_inner_product e \<or> string_trim (to_lowercase opt) = ''targetstatesinner''"
  "show_snapshots_overlaps (from_json_option opt e) \<longleftrightarrow>
     show_snapshots_overlaps e \<or> string_trim (to_lowercase opt) = ''targetstatesprobs''"
  by (auto simp: from_json_option_def Let_def)

lemma fold_from_json_option_flags:
  "show_snapshots_ket (fold from_json_option opts e) \<longleftrightarrow>
     show_snapshots_ket e \<or>
     (\<exists>opt \<in> set opts. string_trim (to_lowercase opt) = ''quantumstateket'' \<or>
        string_trim (to_lowercase opt) = ''quantumstatesket'')"
  "show_snapshots_density (fold from_json_option opts e) \<longleftrightarrow>
     show_snapshots_density e \<or>
     (\<exists>opt \<in> set opts. string_trim (to_lowercase opt) = ''densitymatrix'')"
  "show_snapshots_probs (fold from_json_option opts e) \<longleftrightarrow>
     show_snapshots_probs e \<or>
     (\<exists>opt \<in> set opts. string_trim (to_lowercase opt) = ''probabilities'' \<or>
        string_trim (to_lowercase opt) = ''probs'')"
  "show_snapshots_probs_ket (fold from_json_option opts e) \<longleftrightarrow>
     show_snapshots_probs_ket e \<or>
     (\<exists>opt \<in> set opts. string_trim (to_lowercase opt) = ''probabilitiesket'' \<or>
        string_trim (to_lowercase opt) = ''probsket'')"
  "show_snapshots_inner_product (fold from_json_option opts e) \<longleftrightarrow>
     show_snapshots_inner_product e \<or>
     (\<exists>opt \<in> set opts. string_trim (to_lowercase opt) = ''targetstatesinner'')"
  "show_snapshots_overlaps (fold from_json_option opts e) \<longleftrightarrow>
     show_snapshots_overlaps e \<or>
     (\<exists>opt \<in> set opts. string_trim (to_lowercase opt) = ''targetstatesprobs'')"
  by (induction opts arbitrary: e; simp add: from_json_option_flags; blast)+


lemma from_json_option_unknown:
  assumes "string_trim (to_lowercase opt) \<notin>
     {''quantumstateket'', ''quantumstatesket'', ''densitymatrix'', ''probabilities'', ''probs'',
      ''probabilitiesket'', ''probsket'', ''targetstatesinner'', ''targetstatesprobs''}"
  shows "from_json_option opt e = e"
  using assms by (simp add: from_json_option_def Let_def)

lemma from_json_flags:
  "show_snapshots_ket (from_json r js) =
     show_snapshots_ket (fold from_json_option (case js_data js of None \<Rightarrow> [] | Some opts \<Rightarrow> opts)
        (VectorEngine_new 2))"
  "show_snapshots_density (from_json r js) =
     show_snapshots_density (fold from_json_option (case js_data js of None \<Rightarrow> [] | Some opts \<Rightarrow> opts)
        (VectorEngine_new 2))"
  "show_snapshots_probs (from_json r js) =
     show_snapshots_probs (fold from_json_option (case js_data js of None \<Rightarrow> [] | Some opts \<Rightarrow> opts)
        (VectorEngine_new 2))"
  "show_snapshots_probs_ket (from_json r js) =
     show_snapshots_probs_ket (fold from_json_option (case js_data js of None \<Rightarrow> [] | Some opts \<Rightarrow> opts)
        (VectorEngine_new 2))"
  "show_snapshots_inner_product (from_json r js) =
     show_snapshots_inner_product (fold from_json_option (case js_data js of None \<Rightarrow> [] | Some opts \<Rightarrow> opts)
        (VectorEngine_new 2))"
  "show_snapshots_overlaps (from_json r js) =
     show_snapshots_overlaps (fold from_json_option (case js_data js of None \<Rightarrow> [] | Some opts \<Rightarrow> opts)
        (VectorEngine_new 2))"
  by (simp_all add: from_json_def Let_def split: option.splits)

subsection \<open>The lists of a plan\<close>

lemma assoc_on_append: "assoc_on (\<lambda>_. True) (@)"
  by (simp add: assoc_on_def)

lemma compute_results_inprods_lookup:
  assumes "compute_results v s e = Inr e'"
  shows "fmlookup (snapshots_inprods e') l =
     osum (@) (fmlookup (snapshots_inprods e) l) (contrib_inprods e s l)"
proof -
  have "fmlookup (add_entries (\<lambda>mine psi. mine @ g psi) [] other m) l =
        osum (@) (fmlookup m l) (map_option g (fmlookup other l))"
    for g :: "QubitVector \<Rightarrow> cvector_t list" and other m
    by (rule add_entries_osum_map) simp
  then show ?thesis
    by (simp add: compute_results_inprods [OF assms] contrib_inprods_def)
qed

lemma add_inprods_lookup:
  "fmlookup (snapshots_inprods (VectorEngine_add a b)) l =
     osum (@) (fmlookup (snapshots_inprods a) l) (fmlookup (snapshots_inprods b) l)"
  by (simp add: add_entries_osum)

lemma contrib_lists_same_config:
  assumes "same_config a b"
  shows "contrib_ket v a s = contrib_ket v b s"
    and "contrib_inprods a s l = contrib_inprods b s l"
  using assms by (simp_all add: same_config_def contrib_ket_def contrib_inprods_def)

lemma compute_results_ket_contrib:
  "snapshots_ket (engine_of (compute_results v s e)) = snapshots_ket e @ contrib_ket v e s"
  by (simp add: compute_results_ket contrib_ket_def)

lemma run_shots_ket:
  "run_shots v ss e = Inr e' \<Longrightarrow>
   snapshots_ket e' = snapshots_ket e @ concat (map (contrib_ket v e) ss)"
proof (induction ss arbitrary: e)
  case Nil
  then show ?case by simp
next
  case (Cons s ss)
  from Cons.prems obtain e1 where e1: "compute_results v s e = Inr e1"
    and r: "run_shots v ss e1 = Inr e'"
    by (auto split: sum.splits)
  from compute_results_config [of v s e] e1 have sc: "same_config e1 e" by simp
  from compute_results_ket_contrib [of v s e] e1
  have k1: "snapshots_ket e1 = snapshots_ket e @ contrib_ket v e s" by simp
  from Cons.IH [OF r] k1 show ?case
    by (simp add: contrib_lists_same_config(1) [OF sc])
qed

lemma run_plan_ket:
  "run_plan v cfg p = Inr e' \<Longrightarrow> no_results cfg \<Longrightarrow>
   snapshots_ket e' = concat (map (contrib_ket v cfg) (shots_of p))"
proof (induction p arbitrary: e')
  case (Group g)
  then have "run_shots v g cfg = Inr e'" by (auto split: sum.splits)
  from run_shots_ket [OF this] Group.prems(2) show ?case by (simp add: no_results_def)
next
  case (Merge a b)
  from Merge.prems(1) obtain ea eb where ea: "run_plan v cfg a = Inr ea"
    and eb: "run_plan v cfg b = Inr eb" and e': "e' = VectorEngine_add ea eb"
    by (auto split: sum.splits)
  from Merge.IH(1) [OF ea Merge.prems(2)] Merge.IH(2) [OF eb Merge.prems(2)]
  show ?case by (simp add: e')
qed

text \<open>A plan leaves the lists that the run of its shots, in their order, on one engine leaves.\<close>

lemma plan_lists_as_direct:
  assumes fresh: "no_results cfg"
    and plan: "run_plan v cfg p = Inr merged"
  shows "\<exists>direct. run_shots v (shots_of p) cfg = Inr direct \<and>
           snapshots_ket merged = snapshots_ket direct \<and>
           snapshots_inprods merged = snapshots_inprods direct"
proof -
  from run_plan_throws [of v cfg p] plan have "\<not> isl (run_shots v (shots_of p) cfg)"
    by (simp add: run_shots_throws)
  then obtain direct where direct: "run_shots v (shots_of p) cfg = Inr direct"
    by (cases "run_shots v (shots_of p) cfg") auto
  from fresh have e0: "snapshots_ket cfg = []" "snapshots_inprods cfg = fmempty"
    by (simp_all add: no_results_def)
  have ket: "snapshots_ket merged = snapshots_ket direct"
    using run_plan_ket [OF plan fresh] run_shots_ket [OF direct] e0 by simp
  have all: "list_all (\<lambda>s. opred (\<lambda>_. True) (contrib_inprods cfg s l)) (shots_of p)" for l
    by (simp add: list_all_iff opred_def split: option.splits)
  have ips: "snapshots_inprods merged = snapshots_inprods direct"
  proof (rule fmap_ext)
    fix l
    have d: "fmlookup (snapshots_inprods direct) l =
        osum_list (@) (map (\<lambda>s. contrib_inprods cfg s l) (shots_of p))"
      using run_shots_sum [where fld = snapshots_inprods and c = contrib_inprods and l = l
          and f = "(@)" and Q = "\<lambda>_. True",
          OF assoc_on_append compute_results_inprods_lookup contrib_lists_same_config(2)
             direct _ all] e0
      by simp
    have m: "fmlookup (snapshots_inprods merged) l =
        osum_list (@) (map (\<lambda>s. contrib_inprods cfg s l) (shots_of p))"
      using run_plan_sum [where fld = snapshots_inprods and c = contrib_inprods and l = l
          and f = "(@)" and Q = "\<lambda>_. True",
          OF assoc_on_append compute_results_inprods_lookup contrib_lists_same_config(2)
             add_inprods_lookup e0(2) plan all] .
    from d m show "fmlookup (snapshots_inprods merged) l = fmlookup (snapshots_inprods direct) l"
      by simp
  qed
  from direct ket ips show ?thesis by simp
qed

text \<open>Were the additions exact, the sums of a plan would be those of the run of the
  same shots on one engine.\<close>

lemma exact_partition_invariance:
  assumes fresh: "no_results cfg"
    and dims: "\<forall>s \<in> set shots. shot_dim n s"
    and part: "mset (shots_of p) = mset shots"
  shows "case run_shots vec2ket shots cfg of
           Inl _ \<Rightarrow> isl (run_plan vec2ket cfg p)
         | Inr direct \<Rightarrow>
             (\<exists>merged. run_plan vec2ket cfg p = Inr merged \<and>
                snapshots_density merged = snapshots_density direct \<and>
                snapshots_probs merged = snapshots_probs direct \<and>
                snapshots_probs_ket merged = snapshots_probs_ket direct \<and>
                snapshots_overlaps merged = snapshots_overlaps direct)"
proof (cases "run_shots vec2ket shots cfg")
  case (Inl x)
  have "set (shots_of p) = set shots" using part by (metis set_mset_mset)
  with run_shots_throws [of vec2ket shots cfg] run_plan_throws [of vec2ket cfg p] Inl
  show ?thesis by simp
next
  case (Inr direct)
  have seteq: "set (shots_of p) = set shots" using part by (metis set_mset_mset)
  with run_shots_throws [of vec2ket shots cfg] run_plan_throws [of vec2ket cfg p] Inr
  have "\<not> isl (run_plan vec2ket cfg p)" by simp
  then obtain merged where merged: "run_plan vec2ket cfg p = Inr merged"
    by (cases "run_plan vec2ket cfg p") auto
  have step_d: "\<And>s e e' l. compute_results vec2ket s e = Inr e' \<Longrightarrow>
      fmlookup (snapshots_density e') l =
        osum density_add (fmlookup (snapshots_density e) l) (contrib_density e s l)"
    using compute_results_density [of vec2ket] by (metis engine_of_simps(2))
  have step_p: "\<And>s e e' l. compute_results vec2ket s e = Inr e' \<Longrightarrow>
      fmlookup (snapshots_probs e') l =
        osum vector_add (fmlookup (snapshots_probs e) l) (contrib_probs e s l)"
    using compute_results_probs [of vec2ket] by (metis engine_of_simps(2))
  have step_k: "\<And>s e e' l. compute_results vec2ket s e = Inr e' \<Longrightarrow>
      fmlookup (snapshots_probs_ket e') l =
        osum rket_add (fmlookup (snapshots_probs_ket e) l) (contrib_probs_ket vec2ket e s l)"
    using compute_results_probs_ket [of vec2ket] by (metis engine_of_simps(2))
  have d: "snapshots_density merged = snapshots_density direct"
    using fresh dims
    by (intro direct_eq_plan [where fld = snapshots_density and c = contrib_density,
          OF comm_on_density_add [of n] step_d contrib_same_config(1) add_density_lookup
             _ _ part Inr merged])
       (auto simp: no_results_def contrib_density_square)
  have p: "snapshots_probs merged = snapshots_probs direct"
    using fresh dims
    by (intro direct_eq_plan [where fld = snapshots_probs and c = contrib_probs,
          OF comm_on_vector_add [of n] step_p contrib_same_config(2) add_probs_lookup
             _ _ part Inr merged])
       (auto simp: no_results_def contrib_probs_length)
  have k: "snapshots_probs_ket merged = snapshots_probs_ket direct"
    using fresh
    by (intro direct_eq_plan [where fld = snapshots_probs_ket
            and c = "contrib_probs_ket vec2ket",
          OF comm_on_rket_add step_k contrib_same_config(3) add_probs_ket_lookup
             _ _ part Inr merged])
       (auto simp: no_results_def opred_def split: option.splits)
  have o: "snapshots_overlaps merged = snapshots_overlaps direct"
    using fresh
    by (intro direct_eq_plan [where fld = snapshots_overlaps and c = contrib_overlaps,
          OF comm_on_vector_add [of "length (target_states cfg)"] compute_results_overlaps
             contrib_same_config(4) add_overlaps_lookup _ _ part Inr merged])
       (auto simp: no_results_def contrib_overlaps_length)
  from merged d p k o Inr show ?thesis by simp
qed

subsection \<open>Rounding to a double\<close>

lemma rhe_cases:
  "round_half_even x = \<lfloor>x\<rfloor> \<or> round_half_even x = \<lfloor>x\<rfloor> + 1"
  by (simp add: round_half_even_def Let_def)

lemma rhe_err: "\<bar>of_int (round_half_even x) - x\<bar> \<le> 1 / 2"
  unfolding round_half_even_def Let_def
  by (auto split: if_splits)

lemma rhe_of_int [simp]: "round_half_even (of_int n) = n"
  by (simp add: round_half_even_def)

lemma rhe_ge: "of_int a \<le> x \<Longrightarrow> a \<le> round_half_even x"
proof -
  assume "of_int a \<le> x"
  then have "a \<le> \<lfloor>x\<rfloor>" by (simp add: le_floor_iff)
  with rhe_cases [of x] show ?thesis by auto
qed

lemma rhe_le: "x \<le> of_int b \<Longrightarrow> round_half_even x \<le> b"
proof (cases "x = of_int \<lfloor>x\<rfloor>")
  case True
  assume "x \<le> of_int b"
  with True have "\<lfloor>x\<rfloor> \<le> b" by linarith
  moreover from True have "round_half_even x = \<lfloor>x\<rfloor>"
    by (metis rhe_of_int)
  ultimately show ?thesis by simp
next
  case False
  assume "x \<le> of_int b"
  with False have "\<lfloor>x\<rfloor> < b" by linarith
  with rhe_cases [of x] show ?thesis by auto
qed

lemma floor_log2:
  assumes "x \<noteq> 0"
  shows "2 powr of_int \<lfloor>log 2 \<bar>x\<bar>\<rfloor> \<le> \<bar>x\<bar>" "\<bar>x\<bar> < 2 powr (of_int \<lfloor>log 2 \<bar>x\<bar>\<rfloor> + 1)"
  using floor_log_eq_powr_iff [of "\<bar>x\<bar>" 2 "\<lfloor>log 2 \<bar>x\<bar>\<rfloor>"] assms by simp_all

lemma round_double_binade:
  assumes lo: "2 powr of_int k \<le> \<bar>x\<bar>" and hi: "\<bar>x\<bar> < 2 powr (of_int k + 1)"
  shows "round_double x = 2 powr (of_int k - 52) * of_int (round_half_even (x / 2 powr (of_int k - 52)))"
proof -
  have "0 < (2 :: real) powr of_int k" by simp
  with lo have "0 < \<bar>x\<bar>" by linarith
  then have nz: "x \<noteq> 0" by simp
  with floor_log_eq_powr_iff [of "\<bar>x\<bar>" 2 k] lo hi have "\<lfloor>log 2 \<bar>x\<bar>\<rfloor> = k" by simp
  with nz show ?thesis by (simp add: round_double_def Let_def)
qed

lemma round_double_error: "\<bar>round_double x - x\<bar> \<le> unit_roundoff * \<bar>x\<bar>"
proof (cases "x = 0")
  case True
  then show ?thesis by (simp add: round_double_def)
next
  case False
  define e where "e = \<lfloor>log 2 \<bar>x\<bar>\<rfloor>"
  define q :: real where "q = 2 powr (of_int e - 52)"
  have q: "0 < q" by (simp add: q_def)
  have rd: "round_double x = q * of_int (round_half_even (x / q))"
    using False by (simp add: round_double_def Let_def q_def e_def)
  have "round_double x - x = q * (of_int (round_half_even (x / q)) - x / q)"
    using q by (simp add: rd algebra_simps)
  then have "\<bar>round_double x - x\<bar> = q * \<bar>of_int (round_half_even (x / q)) - x / q\<bar>"
    using q by (simp add: abs_mult)
  also have "\<dots> \<le> q * (1 / 2)"
    using rhe_err [of "x / q"] q by (intro mult_left_mono) simp_all
  also have "\<dots> = unit_roundoff * 2 powr of_int e"
    by (simp add: q_def unit_roundoff_def powr_diff)
  also have "\<dots> \<le> unit_roundoff * \<bar>x\<bar>"
    using floor_log2(1) [OF False] by (intro mult_left_mono) (simp_all add: e_def unit_roundoff_def)
  finally show ?thesis .
qed

lemma round_double_idem: "round_double (round_double x) = round_double x"
proof (cases "x = 0")
  case True
  then show ?thesis by (simp add: round_double_def)
next
  case False
  define e where "e = \<lfloor>log 2 \<bar>x\<bar>\<rfloor>"
  define q :: real where "q = 2 powr (of_int e - 52)"
  define m where "m = round_half_even (x / q)"
  have q: "0 < q" by (simp add: q_def)
  have rd: "round_double x = q * of_int m"
    using False by (simp add: round_double_def Let_def q_def e_def m_def)
  have qe: "q * 2 ^ 52 = 2 powr of_int e"
    by (simp add: q_def powr_diff)
  have lo: "2 ^ 52 \<le> \<bar>x / q\<bar>"
  proof -
    from floor_log2(1) [OF False] have "2 powr of_int e \<le> \<bar>x\<bar>" by (simp only: e_def)
    with qe have "q * 2 ^ 52 \<le> \<bar>x\<bar>" by (simp only:)
    then show ?thesis using q by (simp add: pos_le_divide_eq mult.commute)
  qed
  have hi: "\<bar>x / q\<bar> < 2 ^ 53"
  proof -
    have "\<bar>x\<bar> < 2 powr (of_int e + 1)" using floor_log2(2) [OF False] by (simp add: e_def)
    also have "\<dots> = q * 2 ^ 53" by (simp add: q_def powr_diff powr_add)
    finally show ?thesis using q by (simp add: pos_divide_less_eq mult.commute)
  qed
  have mb: "2 ^ 52 \<le> \<bar>m\<bar> \<and> \<bar>m\<bar> \<le> 2 ^ 53"
  proof (cases "0 \<le> x / q")
    case True
    with lo hi have "of_int (2 ^ 52) \<le> x / q" "x / q \<le> of_int (2 ^ 53)" by simp_all
    from rhe_ge [OF this(1)] rhe_le [OF this(2)] show ?thesis by (simp add: m_def)
  next
    case neg: False
    with lo hi have "of_int (- (2 ^ 53)) \<le> x / q" "x / q \<le> of_int (- (2 ^ 52))" by simp_all
    from rhe_ge [OF this(1)] rhe_le [OF this(2)] show ?thesis by (simp add: m_def)
  qed
  show ?thesis
  proof (cases "\<bar>m\<bar> = 2 ^ 53")
    case True
    have ab: "\<bar>q * of_int m\<bar> = 2 powr (of_int (e + 1))"
      using q True by (simp add: abs_mult q_def powr_diff powr_add)
    have "2 powr of_int (e + 1) \<le> \<bar>q * of_int m\<bar>"
      "\<bar>q * of_int m\<bar> < 2 powr (of_int (e + 1) + 1)"
      using ab by (simp_all add: powr_add)
    from round_double_binade [OF this]
    have "round_double (q * of_int m) =
      2 powr (of_int (e + 1) - 52) * of_int (round_half_even (q * of_int m / 2 powr (of_int (e + 1) - 52)))" .
    moreover have "2 powr (of_int (e + 1) - 52) = 2 * q"
      by (simp add: q_def powr_diff powr_add)
    moreover from True have "m = 2 ^ 53 \<or> m = - (2 ^ 53)" by (cases "0 \<le> m") auto
    then have "q * of_int m / (2 * q) = of_int (m div 2) \<and> 2 * of_int (m div 2) = (of_int m :: real)"
      using q by auto
    ultimately show ?thesis by (simp add: rd)
  next
    case False
    with mb have "2 ^ 52 \<le> \<bar>m\<bar>" "\<bar>m\<bar> < 2 ^ 53" by simp_all
    then have "(of_int (2 ^ 52) :: real) \<le> of_int \<bar>m\<bar>" "(of_int \<bar>m\<bar> :: real) < of_int (2 ^ 53)"
      by (simp_all only: of_int_le_iff of_int_less_iff)
    then have "(2 :: real) ^ 52 \<le> \<bar>of_int m\<bar>" "\<bar>of_int m :: real\<bar> < 2 ^ 53"
      by simp_all
    then have "q * 2 ^ 52 \<le> \<bar>q * of_int m\<bar>" "\<bar>q * of_int m\<bar> < q * 2 ^ 53"
      using q by (simp_all add: abs_mult)
    then have "2 powr of_int e \<le> \<bar>q * of_int m\<bar>" "\<bar>q * of_int m\<bar> < 2 powr (of_int e + 1)"
      by (simp_all add: q_def powr_diff powr_add)
    from round_double_binade [OF this] q show ?thesis
      by (simp add: rd q_def [symmetric])
  qed
qed

lemma unit_roundoff_pos: "0 < unit_roundoff" "0 \<le> unit_roundoff"
  by (simp_all add: unit_roundoff_def)

lemma roundoff_bound_nonneg: "0 \<le> roundoff_bound k"
  using unit_roundoff_pos by (simp add: roundoff_bound_def)

lemma norm_sum_mset_le:
  fixes M :: "'a::real_normed_vector multiset"
  shows "norm (sum_mset M) \<le> sum_mset (image_mset norm M)"
proof (induction M)
  case empty
  then show ?case by simp
next
  case (add x M)
  have "norm (x + sum_mset M) \<le> norm x + norm (sum_mset M)" by (rule norm_triangle_ineq)
  with add show ?case by simp
qed

lemma sum_mset_norm_nonneg:
  fixes M :: "'a::real_normed_vector multiset"
  shows "0 \<le> sum_mset (image_mset norm M)"
  by (induction M) simp_all

lemma rounded_sum_single: "rounded_sum {#x#} x"
  by (simp add: rounded_sum_def roundoff_bound_def)

lemma rounded_sum_norm:
  fixes M :: "'a::real_normed_vector multiset"
  assumes "rounded_sum M v"
  shows "norm v \<le> (1 + unit_roundoff) ^ (size M - 1) * sum_mset (image_mset norm M)"
proof -
  have "norm v \<le> norm (v - sum_mset M) + norm (sum_mset M)"
    using norm_triangle_ineq [of "v - sum_mset M" "sum_mset M"] by simp
  also have "\<dots> \<le> roundoff_bound (size M) * sum_mset (image_mset norm M) +
      sum_mset (image_mset norm M)"
    using assms norm_sum_mset_le [of M] by (simp add: rounded_sum_def)
  also have "\<dots> = (1 + unit_roundoff) ^ (size M - 1) * sum_mset (image_mset norm M)"
    by (simp add: roundoff_bound_def algebra_simps)
  finally show ?thesis .
qed

lemma rounded_sum_add:
  fixes M N :: "'a::real_normed_vector multiset"
  assumes M: "M \<noteq> {#}" and N: "N \<noteq> {#}"
    and v: "rounded_sum M v" and w: "rounded_sum N w"
    and r: "norm (r - (v + w)) \<le> unit_roundoff * norm (v + w)"
  shows "rounded_sum (M + N) r"
proof -
  define u where "u = unit_roundoff"
  define a where "a = size M - 1"
  define b where "b = size N - 1"
  define AM where "AM = sum_mset (image_mset norm M)"
  define AN where "AN = sum_mset (image_mset norm N)"
  have u: "0 \<le> u" by (simp add: u_def unit_roundoff_pos)
  have AM: "0 \<le> AM" and AN: "0 \<le> AN" by (simp_all add: AM_def AN_def sum_mset_norm_nonneg)
  from M N have sz: "size (M + N) - 1 = a + b + 1"
    by (cases "size M"; cases "size N") (simp_all add: a_def b_def)
  have nv: "norm v \<le> (1 + u) ^ a * AM"
    using rounded_sum_norm [OF v] by (simp add: u_def a_def AM_def)
  have nw: "norm w \<le> (1 + u) ^ b * AN"
    using rounded_sum_norm [OF w] by (simp add: u_def b_def AN_def)
  have ev: "norm (v - sum_mset M) \<le> ((1 + u) ^ a - 1) * AM"
    using v by (simp add: rounded_sum_def roundoff_bound_def u_def a_def AM_def)
  have ew: "norm (w - sum_mset N) \<le> ((1 + u) ^ b - 1) * AN"
    using w by (simp add: rounded_sum_def roundoff_bound_def u_def b_def AN_def)
  have "norm (v + w) \<le> norm v + norm w" by (rule norm_triangle_ineq)
  with nv nw have nvw: "norm (v + w) \<le> (1 + u) ^ a * AM + (1 + u) ^ b * AN" by simp
  have er: "norm (r - (v + w)) \<le> u * ((1 + u) ^ a * AM + (1 + u) ^ b * AN)"
  proof -
    have "norm (r - (v + w)) \<le> u * norm (v + w)" using r by (simp add: u_def)
    also have "\<dots> \<le> u * ((1 + u) ^ a * AM + (1 + u) ^ b * AN)"
      using nvw u by (rule mult_left_mono)
    finally show ?thesis .
  qed
  have split: "r - (sum_mset M + sum_mset N) =
      (r - (v + w)) + (v - sum_mset M) + (w - sum_mset N)" by simp
  have "norm (r - (sum_mset M + sum_mset N)) \<le>
      norm (r - (v + w)) + norm (v - sum_mset M) + norm (w - sum_mset N)"
    unfolding split
    using norm_triangle_ineq [of "(r - (v + w)) + (v - sum_mset M)" "w - sum_mset N"]
      norm_triangle_ineq [of "r - (v + w)" "v - sum_mset M"] by linarith
  also have "\<dots> \<le> u * ((1 + u) ^ a * AM + (1 + u) ^ b * AN) +
      ((1 + u) ^ a - 1) * AM + ((1 + u) ^ b - 1) * AN"
    using er ev ew by linarith
  also have "\<dots> = ((1 + u) ^ (a + 1) - 1) * AM + ((1 + u) ^ (b + 1) - 1) * AN"
    by (simp add: algebra_simps)
  also have "\<dots> \<le> ((1 + u) ^ (a + b + 1) - 1) * AM + ((1 + u) ^ (a + b + 1) - 1) * AN"
  proof -
    have "(1 + u) ^ (a + 1) \<le> (1 + u) ^ (a + b + 1)" "(1 + u) ^ (b + 1) \<le> (1 + u) ^ (a + b + 1)"
      using u by (simp_all add: power_increasing)
    then have "((1 + u) ^ (a + 1) - 1) * AM \<le> ((1 + u) ^ (a + b + 1) - 1) * AM"
      "((1 + u) ^ (b + 1) - 1) * AN \<le> ((1 + u) ^ (a + b + 1) - 1) * AN"
      using AM AN by (simp_all add: mult_right_mono)
    then show ?thesis by linarith
  qed
  also have "\<dots> = ((1 + u) ^ (a + b + 1) - 1) * (AM + AN)"
    by (simp only: distrib_left)
  finally have "norm (r - (sum_mset M + sum_mset N)) \<le> ((1 + u) ^ (a + b + 1) - 1) * (AM + AN)" .
  moreover have "roundoff_bound (size (M + N)) = (1 + u) ^ (a + b + 1) - 1"
    unfolding roundoff_bound_def sz u_def ..
  moreover have "sum_mset (image_mset norm (M + N)) = AM + AN"
    by (simp add: AM_def AN_def)
  ultimately show ?thesis by (simp add: rounded_sum_def)
qed

lemma rounded_sum_close:
  fixes M :: "'a::real_normed_vector multiset"
  assumes "rounded_sum M v" "rounded_sum M w"
  shows "norm (v - w) \<le> 2 * roundoff_bound (size M) * sum_mset (image_mset norm M)"
proof -
  have "norm (v - w) \<le> norm (v - sum_mset M) + norm (w - sum_mset M)"
    using norm_triangle_ineq4 [of "v - sum_mset M" "w - sum_mset M"] by simp
  with assms show ?thesis by (simp add: rounded_sum_def)
qed

lemma plus_dbl_error: "norm (plus_dbl x y - (x + y)) \<le> unit_roundoff * norm (x + y)"
  using round_double_error [of "x + y"] by (simp add: plus_dbl_def)

lemma cplus_dbl_error: "norm (cplus_dbl a b - (a + b)) \<le> unit_roundoff * norm (a + b)"
proof -
  let ?dr = "round_double (Re a + Re b) - (Re a + Re b)"
  let ?di = "round_double (Im a + Im b) - (Im a + Im b)"
  have d: "cplus_dbl a b - (a + b) = Complex ?dr ?di"
    by (simp add: cplus_dbl_def plus_dbl_def complex_eq_iff)
  have r: "?dr\<^sup>2 \<le> (unit_roundoff * (Re a + Re b))\<^sup>2"
    using round_double_error [of "Re a + Re b"] unit_roundoff_pos
    by (simp add: abs_le_square_iff [symmetric] abs_mult)
  have i: "?di\<^sup>2 \<le> (unit_roundoff * (Im a + Im b))\<^sup>2"
    using round_double_error [of "Im a + Im b"] unit_roundoff_pos
    by (simp add: abs_le_square_iff [symmetric] abs_mult)
  have "norm (Complex ?dr ?di) = sqrt (?dr\<^sup>2 + ?di\<^sup>2)" by (simp add: cmod_def)
  also have "\<dots> \<le> sqrt ((unit_roundoff * (Re a + Re b))\<^sup>2 + (unit_roundoff * (Im a + Im b))\<^sup>2)"
    using r i by (intro real_sqrt_le_mono) linarith
  also have "\<dots> = sqrt (unit_roundoff\<^sup>2 * ((Re a + Re b)\<^sup>2 + (Im a + Im b)\<^sup>2))"
    by (simp only: power_mult_distrib distrib_left [symmetric])
  also have "\<dots> = unit_roundoff * norm (a + b)"
    using unit_roundoff_pos by (simp add: real_sqrt_mult cmod_def)
  finally show ?thesis by (simp add: d)
qed

lemma round_double_scale:
  "round_double (x * 2 powr of_int j) = round_double x * 2 powr of_int j"
proof (cases "x = 0")
  case True
  then show ?thesis by (simp add: round_double_def)
next
  case False
  define e where "e = \<lfloor>log 2 \<bar>x\<bar>\<rfloor>"
  have "2 powr of_int (e + j) \<le> \<bar>x * 2 powr of_int j\<bar>"
    "\<bar>x * 2 powr of_int j\<bar> < 2 powr (of_int (e + j) + 1)"
    using floor_log2 [OF False] by (simp_all add: abs_mult powr_add e_def)
  from round_double_binade [OF this] False show ?thesis
    by (simp add: round_double_def Let_def e_def powr_add powr_diff field_simps)
qed

lemma round_double_unit:
  assumes "1 \<le> x" "x < 2"
  shows "round_double x = of_int (round_half_even (x * 2 ^ 52)) / 2 ^ 52"
proof -
  from assms have "2 powr of_int 0 \<le> \<bar>x\<bar>" "\<bar>x\<bar> < 2 powr (of_int 0 + 1)" by simp_all
  from round_double_binade [OF this] show ?thesis
    by (simp add: powr_minus field_simps)
qed

lemma rd_values:
  "round_double 0 = 0"
  "round_double 1 = 1"
  "round_double 2 = 2"
  "round_double 3 = 3"
  "round_double (1 / 2 ^ 54) = 1 / 2 ^ 54"
  "round_double (1 / 2 ^ 53) = 1 / 2 ^ 53"
  "round_double (3 / 2 ^ 54) = 3 / 2 ^ 54"
  "round_double (1 + 1 / 2 ^ 54) = 1"
  "round_double (1 + 3 / 2 ^ 54) = 1 + 1 / 2 ^ 52"
proof -
  show "round_double 0 = 0" by (simp add: round_double_def)
  show one: "round_double 1 = 1"
    using round_double_unit [of 1] by (simp add: round_half_even_def)
  have th: "round_double (3 / 2) = 3 / 2"
    using round_double_unit [of "3 / 2"] by (simp add: round_half_even_def)
  show "round_double 2 = 2"
    using round_double_scale [of 1 1] one by simp
  show "round_double 3 = 3"
    using round_double_scale [of "3 / 2" 1] th by simp
  show "round_double (1 / 2 ^ 54) = 1 / 2 ^ 54"
    using round_double_scale [of 1 "- 54"] one by (simp add: powr_minus_divide)
  show "round_double (1 / 2 ^ 53) = 1 / 2 ^ 53"
    using round_double_scale [of 1 "- 53"] one by (simp add: powr_minus_divide)
  show "round_double (3 / 2 ^ 54) = 3 / 2 ^ 54"
    using round_double_scale [of "3 / 2" "- 53"] th by (simp add: powr_minus_divide)
  show "round_double (1 + 1 / 2 ^ 54) = 1"
    using round_double_unit [of "1 + 1 / 2 ^ 54"] by (simp add: round_half_even_def)
  show "round_double (1 + 3 / 2 ^ 54) = 1 + 1 / 2 ^ 52"
    using round_double_unit [of "1 + 3 / 2 ^ 54"] by (simp add: round_half_even_def)
qed

subsection \<open>One shot in double arithmetic\<close>

lemma get_probs_vec_dbl_map: "get_probs_vec_dbl vec = map get_probs_dbl vec"
proof -
  have "fold (\<lambda>elt ret. ret @ [get_probs_dbl elt]) vec acc = acc @ map get_probs_dbl vec" for acc
    by (induction vec arbitrary: acc) auto
  then show ?thesis by (simp add: get_probs_vec_dbl_def)
qed

lemma vector_add_dbl_Nil [simp]: "vector_add_dbl [] v = v"
  by (simp add: vector_add_dbl_def)

lemma density_add_dbl_Nil [simp]: "density_add_dbl [] m = m"
  by (simp add: density_add_dbl_def matrix_size_def)

lemma compute_inprods_dbl_ok:
  "sizes_match vecs psi \<Longrightarrow>
   compute_inprods_dbl eps n psi vecs acc = Inr (acc @ inprods_of_dbl eps vecs psi)"
  by (induction vecs arbitrary: acc) (auto simp: sizes_match_def inprods_of_dbl_def)

lemma compute_inprods_dbl_fail:
  "\<not> sizes_match vecs psi \<Longrightarrow>
   \<exists>vec. find (\<lambda>vec. length vec \<noteq> length psi) vecs = Some vec \<and>
     compute_inprods_dbl eps n psi vecs acc = Inl (TargetStateSize (length vec) n)"
  by (induction vecs arbitrary: acc) (auto simp: sizes_match_def)

lemma compute_inner_dbl_preserves:
  assumes "\<And>l ips e. F (store_inprods_dbl l ips e) = F e"
  shows "F (engine_of (compute_inner_dbl n xs e)) = F e"
proof (induction xs arbitrary: e)
  case Nil
  then show ?case by simp
next
  case (Cons x xs)
  obtain l psi where x: "x = (l, psi)" by (cases x)
  show ?case
    by (cases "compute_inprods_dbl (epsilon e) n psi (target_states e) []")
       (simp_all add: x Cons.IH assms)
qed

lemma store_inprods_dbl_config [simp]:
  "qudit_dim (store_inprods_dbl l ips e) = qudit_dim e"
  "epsilon (store_inprods_dbl l ips e) = epsilon e"
  "total_shots (store_inprods_dbl l ips e) = total_shots e"
  "show_snapshots_ket (store_inprods_dbl l ips e) = show_snapshots_ket e"
  "show_snapshots_density (store_inprods_dbl l ips e) = show_snapshots_density e"
  "show_snapshots_probs (store_inprods_dbl l ips e) = show_snapshots_probs e"
  "show_snapshots_probs_ket (store_inprods_dbl l ips e) = show_snapshots_probs_ket e"
  "show_snapshots_inner_product (store_inprods_dbl l ips e) = show_snapshots_inner_product e"
  "show_snapshots_overlaps (store_inprods_dbl l ips e) = show_snapshots_overlaps e"
  "target_states (store_inprods_dbl l ips e) = target_states e"
  by (simp_all add: store_inprods_dbl_def)

lemma store_inprods_dbl_data [simp]:
  "snapshots_ket (store_inprods_dbl l ips e) = snapshots_ket e"
  "snapshots_density (store_inprods_dbl l ips e) = snapshots_density e"
  "snapshots_probs (store_inprods_dbl l ips e) = snapshots_probs e"
  "snapshots_probs_ket (store_inprods_dbl l ips e) = snapshots_probs_ket e"
  "snapshots_inprods (store_inprods_dbl l ips e) =
     (if show_snapshots_inner_product e
      then fmupd l (map_at (snapshots_inprods e) l [] @ [ips]) (snapshots_inprods e)
      else snapshots_inprods e)"
  "snapshots_overlaps (store_inprods_dbl l ips e) =
     (if show_snapshots_overlaps e
      then fmupd l (vector_add_dbl (map_at (snapshots_overlaps e) l []) (get_probs_vec_dbl ips))
             (snapshots_overlaps e)
      else snapshots_overlaps e)"
  by (simp_all add: store_inprods_dbl_def)

lemma compute_inner_dbl_config:
  "same_config (engine_of (compute_inner_dbl n xs e)) e"
proof -
  have "(\<lambda>e'. same_config e' e) (engine_of (compute_inner_dbl n xs e)) = (\<lambda>e'. same_config e' e) e"
    by (rule compute_inner_dbl_preserves) (simp add: same_config_def)
  then show ?thesis by simp
qed

lemma compute_inner_dbl_frame:
  "total_shots (engine_of (compute_inner_dbl n xs e)) = total_shots e"
  "snapshots_ket (engine_of (compute_inner_dbl n xs e)) = snapshots_ket e"
  "snapshots_density (engine_of (compute_inner_dbl n xs e)) = snapshots_density e"
  "snapshots_probs (engine_of (compute_inner_dbl n xs e)) = snapshots_probs e"
  "snapshots_probs_ket (engine_of (compute_inner_dbl n xs e)) = snapshots_probs_ket e"
  by (rule compute_inner_dbl_preserves, simp)+

lemma compute_inner_dbl_fail:
  "\<not> list_all (\<lambda>(l, psi). sizes_match (target_states e) psi) xs \<Longrightarrow>
   isl (compute_inner_dbl n xs e)"
proof (induction xs arbitrary: e)
  case Nil
  then show ?case by simp
next
  case (Cons x xs)
  obtain l psi where x: "x = (l, psi)" by (cases x)
  show ?case
  proof (cases "sizes_match (target_states e) psi")
    case True
    with Cons.prems x
    have "\<not> list_all (\<lambda>(l, psi). sizes_match (target_states e) psi) xs"
      by simp
    with Cons.IH [of "store_inprods_dbl l (inprods_of_dbl (epsilon e) (target_states e) psi) e"]
    show ?thesis
      by (simp add: x compute_inprods_dbl_ok [OF True])
  next
    case False
    from compute_inprods_dbl_fail [OF this, of "epsilon e" n "[]"] show ?thesis
      by (auto simp: x)
  qed
qed

lemma compute_inner_dbl_ok:
  "list_all (\<lambda>(l, psi). sizes_match (target_states e) psi) xs \<Longrightarrow>
   \<exists>e'. compute_inner_dbl n xs e = Inr e' \<and>
     snapshots_inprods e' =
       (if show_snapshots_inner_product e
        then fold (\<lambda>(l, psi) m.
                    fmupd l (map_at m l [] @ [inprods_of_dbl (epsilon e) (target_states e) psi]) m)
               xs (snapshots_inprods e)
        else snapshots_inprods e) \<and>
     snapshots_overlaps e' =
       (if show_snapshots_overlaps e
        then fold (\<lambda>(l, psi) m.
                    fmupd l (vector_add_dbl (map_at m l [])
                      (get_probs_vec_dbl (inprods_of_dbl (epsilon e) (target_states e) psi))) m)
               xs (snapshots_overlaps e)
        else snapshots_overlaps e)"
proof (induction xs arbitrary: e)
  case Nil
  then show ?case by simp
next
  case (Cons x xs)
  obtain l psi where x: "x = (l, psi)" by (cases x)
  from Cons.prems x have ok: "sizes_match (target_states e) psi"
    and rest: "list_all (\<lambda>(l, psi). sizes_match (target_states e) psi) xs"
    by simp_all
  from Cons.IH [of "store_inprods_dbl l (inprods_of_dbl (epsilon e) (target_states e) psi) e"] rest
  show ?case
    by (cases "show_snapshots_inner_product e"; cases "show_snapshots_overlaps e")
       (simp_all add: x compute_inprods_dbl_ok [OF ok])
qed

lemma compute_ket_dbl_fields [simp]:
  "total_shots (compute_ket_dbl v regs s e) = total_shots e"
  "qudit_dim (compute_ket_dbl v regs s e) = qudit_dim e"
  "epsilon (compute_ket_dbl v regs s e) = epsilon e"
  "show_snapshots_ket (compute_ket_dbl v regs s e) = show_snapshots_ket e"
  "show_snapshots_density (compute_ket_dbl v regs s e) = show_snapshots_density e"
  "show_snapshots_probs (compute_ket_dbl v regs s e) = show_snapshots_probs e"
  "show_snapshots_probs_ket (compute_ket_dbl v regs s e) = show_snapshots_probs_ket e"
  "show_snapshots_inner_product (compute_ket_dbl v regs s e) = show_snapshots_inner_product e"
  "show_snapshots_overlaps (compute_ket_dbl v regs s e) = show_snapshots_overlaps e"
  "target_states (compute_ket_dbl v regs s e) = target_states e"
  "snapshots_density (compute_ket_dbl v regs s e) = snapshots_density e"
  "snapshots_probs (compute_ket_dbl v regs s e) = snapshots_probs e"
  "snapshots_inprods (compute_ket_dbl v regs s e) = snapshots_inprods e"
  "snapshots_overlaps (compute_ket_dbl v regs s e) = snapshots_overlaps e"
  by (simp_all add: compute_ket_dbl_def Let_def)

lemma compute_ket_dbl_probs_ket:
  "snapshots_probs_ket (compute_ket_dbl v regs s e) =
     (if show_snapshots_probs_ket e
      then add_entries (\<lambda>mine psi. rket_add_dbl mine
             (get_probs_ket_dbl (v psi (qudit_dim e) (epsilon e) regs)))
             fmempty (qreg_snapshots s) (snapshots_probs_ket e)
      else snapshots_probs_ket e)"
proof -
  have "add_entries (\<lambda>mine ket. rket_add_dbl mine (get_probs_ket_dbl ket)) fmempty
          (fmmap g snaps) old =
        add_entries (\<lambda>mine psi. rket_add_dbl mine (get_probs_ket_dbl (g psi))) fmempty snaps old"
    for g :: "QubitVector \<Rightarrow> cket_t" and snaps old
    by (rule fmap_ext) (simp add: add_entries_lookup split: option.splits)
  then show ?thesis
    by (simp add: compute_ket_dbl_def Let_def add_entries_map get_probs_ket_dbl_def [symmetric])
qed

lemma compute_density_dbl_fields [simp]:
  "total_shots (compute_density_dbl s e) = total_shots e"
  "qudit_dim (compute_density_dbl s e) = qudit_dim e"
  "epsilon (compute_density_dbl s e) = epsilon e"
  "show_snapshots_ket (compute_density_dbl s e) = show_snapshots_ket e"
  "show_snapshots_density (compute_density_dbl s e) = show_snapshots_density e"
  "show_snapshots_probs (compute_density_dbl s e) = show_snapshots_probs e"
  "show_snapshots_probs_ket (compute_density_dbl s e) = show_snapshots_probs_ket e"
  "show_snapshots_inner_product (compute_density_dbl s e) = show_snapshots_inner_product e"
  "show_snapshots_overlaps (compute_density_dbl s e) = show_snapshots_overlaps e"
  "target_states (compute_density_dbl s e) = target_states e"
  "snapshots_ket (compute_density_dbl s e) = snapshots_ket e"
  "snapshots_probs (compute_density_dbl s e) = snapshots_probs e"
  "snapshots_probs_ket (compute_density_dbl s e) = snapshots_probs_ket e"
  "snapshots_inprods (compute_density_dbl s e) = snapshots_inprods e"
  "snapshots_overlaps (compute_density_dbl s e) = snapshots_overlaps e"
  by (simp_all add: compute_density_dbl_def)

lemma compute_density_dbl_density:
  "snapshots_density (compute_density_dbl s e) =
     (if show_snapshots_density e
      then add_entries (\<lambda>rho psi. density_add_dbl rho (outer_product_dbl psi psi)) []
             (qreg_snapshots s) (snapshots_density e)
      else snapshots_density e)"
  by (simp add: compute_density_dbl_def density_add_dbl_def)

lemma compute_probs_dbl_fields [simp]:
  "total_shots (compute_probs_dbl s e) = total_shots e"
  "qudit_dim (compute_probs_dbl s e) = qudit_dim e"
  "epsilon (compute_probs_dbl s e) = epsilon e"
  "show_snapshots_ket (compute_probs_dbl s e) = show_snapshots_ket e"
  "show_snapshots_density (compute_probs_dbl s e) = show_snapshots_density e"
  "show_snapshots_probs (compute_probs_dbl s e) = show_snapshots_probs e"
  "show_snapshots_probs_ket (compute_probs_dbl s e) = show_snapshots_probs_ket e"
  "show_snapshots_inner_product (compute_probs_dbl s e) = show_snapshots_inner_product e"
  "show_snapshots_overlaps (compute_probs_dbl s e) = show_snapshots_overlaps e"
  "target_states (compute_probs_dbl s e) = target_states e"
  "snapshots_ket (compute_probs_dbl s e) = snapshots_ket e"
  "snapshots_density (compute_probs_dbl s e) = snapshots_density e"
  "snapshots_probs_ket (compute_probs_dbl s e) = snapshots_probs_ket e"
  "snapshots_inprods (compute_probs_dbl s e) = snapshots_inprods e"
  "snapshots_overlaps (compute_probs_dbl s e) = snapshots_overlaps e"
  by (simp_all add: compute_probs_dbl_def)

lemma compute_probs_dbl_probs:
  "snapshots_probs (compute_probs_dbl s e) =
     (if show_snapshots_probs e
      then add_entries (\<lambda>pr psi. vector_add_dbl pr (get_probs_vec_dbl psi)) []
             (qreg_snapshots s) (snapshots_probs e)
      else snapshots_probs e)"
proof -
  have "(\<lambda>pr psi. if pr = [] then get_probs_vec_dbl psi else vector_add_dbl pr (get_probs_vec_dbl psi)) =
        (\<lambda>pr psi. vector_add_dbl pr (get_probs_vec_dbl psi))"
    by (auto simp: fun_eq_iff)
  then show ?thesis by (simp add: compute_probs_dbl_def)
qed

lemma compute_results_dbl_cases:
  fixes v s e
  defines "regs \<equiv> (if show_snapshots_ket e \<or> show_snapshots_probs_ket e
                    then map snd (rev (qubit_sizes s)) else [])"
  defines "e3 \<equiv> compute_probs_dbl s (compute_density_dbl s (compute_ket_dbl v regs s e))"
  obtains
    (skip) "snapshots_empty s" "compute_results_dbl v s e = Inr e"
  | (plain) "\<not> snapshots_empty s"
      "\<not> (target_states e \<noteq> [] \<and> (show_snapshots_inner_product e \<or> show_snapshots_overlaps e))"
      "compute_results_dbl v s e = Inr e3"
  | (inner) "\<not> snapshots_empty s" "target_states e \<noteq> []"
      "show_snapshots_inner_product e \<or> show_snapshots_overlaps e"
      "compute_results_dbl v s e =
         compute_inner_dbl (length (qreg s)) (sorted_list_of_fmap (qreg_snapshots s)) e3"
proof -
  have unf: "compute_results_dbl v s e =
     (if \<not> snapshots_empty s then
        if target_states e \<noteq> [] \<and> (show_snapshots_inner_product e \<or> show_snapshots_overlaps e)
        then compute_inner_dbl (length (qreg s)) (sorted_list_of_fmap (qreg_snapshots s)) e3
        else Inr e3
      else Inr e)"
    by (simp add: compute_results_dbl_def Let_def e3_def regs_def)
  show thesis
  proof (cases "snapshots_empty s")
    case True
    with unf have "compute_results_dbl v s e = Inr e" by simp
    with True show ?thesis by (rule skip)
  next
    case ne: False
    show ?thesis
    proof (cases "target_states e \<noteq> [] \<and> (show_snapshots_inner_product e \<or> show_snapshots_overlaps e)")
      case True
      with unf ne have "compute_results_dbl v s e =
         compute_inner_dbl (length (qreg s)) (sorted_list_of_fmap (qreg_snapshots s)) e3" by auto
      with ne True show ?thesis by (intro inner) auto
    next
      case False
      with unf ne have "compute_results_dbl v s e = Inr e3" by auto
      with ne False show ?thesis by (rule plain)
    qed
  qed
qed

lemma compute_results_dbl_throws: "isl (compute_results_dbl v s e) \<longleftrightarrow> shot_throws e s"
proof (cases rule: compute_results_dbl_cases [where v=v and s=s and e=e])
  case skip
  then show ?thesis by (simp add: shot_throws_def)
next
  case plain
  then show ?thesis by (auto simp: shot_throws_def)
next
  case inner
  let ?e3 = "compute_probs_dbl s (compute_density_dbl s (compute_ket_dbl v
      (if show_snapshots_ket e \<or> show_snapshots_probs_ket e then map snd (rev (qubit_sizes s)) else [])
      s e))"
  have ts: "target_states ?e3 = target_states e" by simp
  show ?thesis
  proof (cases "list_all (\<lambda>(l, psi). sizes_match (target_states e) psi)
                  (sorted_list_of_fmap (qreg_snapshots s))")
    case True
    with compute_inner_dbl_ok [of ?e3 "sorted_list_of_fmap (qreg_snapshots s)" "length (qreg s)"] ts inner
    show ?thesis by (auto simp: shot_throws_def)
  next
    case False
    with compute_inner_dbl_fail [of ?e3 "sorted_list_of_fmap (qreg_snapshots s)" "length (qreg s)"] ts inner
    show ?thesis by (auto simp: shot_throws_def)
  qed
qed

lemma compute_results_dbl_config: "same_config (engine_of (compute_results_dbl v s e)) e"
proof (cases rule: compute_results_dbl_cases [where v=v and s=s and e=e])
  case skip
  then show ?thesis by simp
next
  case plain
  then show ?thesis by (simp add: same_config_def)
next
  case inner
  let ?e3 = "compute_probs_dbl s (compute_density_dbl s (compute_ket_dbl v
      (if show_snapshots_ket e \<or> show_snapshots_probs_ket e then map snd (rev (qubit_sizes s)) else [])
      s e))"
  have "same_config ?e3 e" by (simp add: same_config_def)
  with compute_inner_dbl_config [of "length (qreg s)" "sorted_list_of_fmap (qreg_snapshots s)" ?e3]
  show ?thesis using inner by (simp add: same_config_def)
qed

lemma run_shots_dbl_config: "run_shots_dbl v ss e = Inr e' \<Longrightarrow> same_config e' e"
proof (induction ss arbitrary: e)
  case Nil
  then show ?case by simp
next
  case (Cons s ss)
  then obtain e1 where e1: "compute_results_dbl v s e = Inr e1" and r: "run_shots_dbl v ss e1 = Inr e'"
    by (auto split: sum.splits)
  from compute_results_dbl_config [of v s e] e1 have "same_config e1 e" by simp
  with Cons.IH [OF r] show ?case by (rule same_config_trans)
qed

lemma run_shots_dbl_throws: "isl (run_shots_dbl v ss e) \<longleftrightarrow> (\<exists>s \<in> set ss. shot_throws e s)"
proof (induction ss arbitrary: e)
  case Nil
  then show ?case by simp
next
  case (Cons s ss)
  show ?case
  proof (cases "compute_results_dbl v s e")
    case (Inl x)
    with compute_results_dbl_throws [of v s e] show ?thesis by simp
  next
    case (Inr e1)
    from compute_results_dbl_config [of v s e] Inr have sc: "same_config e1 e" by simp
    from compute_results_dbl_throws [of v s e] Inr have "\<not> shot_throws e s" by simp
    with Cons.IH [of e1] Inr contrib_same_config(5) [OF sc] show ?thesis by simp
  qed
qed

lemma run_plan_dbl_throws:
  "isl (run_plan_dbl v cfg p) \<longleftrightarrow> (\<exists>s \<in> set (shots_of p). shot_throws cfg s)"
proof (induction p)
  case (Group g)
  from run_shots_dbl_throws [of v g cfg] show ?case
    by (auto split: sum.splits)
next
  case (Merge a b)
  then show ?case by (auto split: sum.splits)
qed

lemma VectorEngine_add_dbl_fields [simp]:
  "snapshots_ket (VectorEngine_add_dbl a b) = snapshots_ket a @ snapshots_ket b"
  "snapshots_density (VectorEngine_add_dbl a b) =
     add_entries density_add_dbl [] (snapshots_density b) (snapshots_density a)"
  "snapshots_probs (VectorEngine_add_dbl a b) =
     add_entries vector_add_dbl [] (snapshots_probs b) (snapshots_probs a)"
  "snapshots_probs_ket (VectorEngine_add_dbl a b) =
     add_entries rket_add_dbl fmempty (snapshots_probs_ket b) (snapshots_probs_ket a)"
  "snapshots_overlaps (VectorEngine_add_dbl a b) =
     add_entries vector_add_dbl [] (snapshots_overlaps b) (snapshots_overlaps a)"
  "snapshots_inprods (VectorEngine_add_dbl a b) =
     add_entries (\<lambda>mine theirs. mine @ theirs) [] (snapshots_inprods b) (snapshots_inprods a)"
  by (simp_all add: VectorEngine_add_dbl_def)

lemma VectorEngine_add_dbl_config [simp]: "same_config (VectorEngine_add_dbl a b) a"
  "total_shots (VectorEngine_add_dbl a b) = total_shots a"
  by (simp_all add: VectorEngine_add_dbl_def same_config_def)

lemma length_get_probs_vec_dbl [simp]: "length (get_probs_vec_dbl v) = length v"
  by (simp add: get_probs_vec_dbl_map)

lemma length_inprods_of_dbl [simp]: "length (inprods_of_dbl eps ts psi) = length ts"
  by (simp add: inprods_of_dbl_def)

subsection \<open>Rounded sums of vectors, matrices and sparse maps\<close>

lemma present_simps [simp]:
  "present {#} = {#}"
  "present (add_mset None M) = present M"
  "present (add_mset (Some x) M) = add_mset x (present M)"
  "present (M + N) = present M + present N"
  by (simp_all add: present_def)

lemma summands_simps [simp]:
  "summands c [] l = {#}"
  "summands c (s # ss) l = present {#c s l#} + summands c ss l"
  "summands c (ss @ ts) l = summands c ss l + summands c ts l"
  by (simp_all add: summands_def present_def)

lemma summands_mset: "mset ss = mset ts \<Longrightarrow> summands c ss l = summands c ts l"
  by (simp add: summands_def)

lemma sum_of_simps [simp]: "sum_of ap M None \<longleftrightarrow> M = {#}" "sum_of ap M (Some v) \<longleftrightarrow> ap M v"
  by (simp_all add: sum_of_def)

lemma oadd_simps [simp]:
  "oadd f d a None = a"
  "oadd f d None (Some w) = Some (f d w)"
  "oadd f d (Some v) (Some w) = Some (f v w)"
  by (simp_all add: oadd_def)

lemma add_entries_oadd:
  "fmlookup (add_entries f d other mine) l = oadd f d (fmlookup mine l) (fmlookup other l)"
  by (simp add: add_entries_lookup map_at_def oadd_def split: option.splits)

lemma add_entries_oadd_map:
  "fmlookup (add_entries (\<lambda>x w. f x (g w)) d other mine) l =
     oadd f d (fmlookup mine l) (map_option g (fmlookup other l))"
  by (simp add: add_entries_lookup map_at_def oadd_def split: option.splits)

text \<open>One visit keeps the entry a rounded sum, of the summands of both sides.\<close>

lemma sum_of_oadd:
  assumes comb: "\<And>M N v w. ap M v \<Longrightarrow> ap N w \<Longrightarrow> ap (M + N) (f v w)"
    and new: "\<And>N w. ap N w \<Longrightarrow> f d w = w"
    and a: "sum_of ap M a" and b: "sum_of ap N b"
  shows "sum_of ap (M + N) (oadd f d a b)"
proof (cases b)
  case None
  with a b show ?thesis by simp
next
  case (Some w)
  with b have w: "ap N w" by simp
  show ?thesis
  proof (cases a)
    case None
    with a have "M = {#}" by simp
    with None Some w new [OF w] show ?thesis by simp
  next
    case (Some v)
    with a have "ap M v" by simp
    from comb [OF this w] Some \<open>b = Some w\<close> show ?thesis by simp
  qed
qed

lemma rounded_vec_single: "length x = n \<Longrightarrow> rounded_vec n {#x#} x"
  by (simp add: rounded_vec_def rounded_sum_single)

lemma rounded_vec_add:
  assumes v: "rounded_vec n M v" and w: "rounded_vec n N w"
  shows "rounded_vec n (M + N) (vector_add_dbl v w)"
proof -
  from v w have len: "length v = n" "length w = n" and ne: "M \<noteq> {#}" "N \<noteq> {#}"
    by (simp_all add: rounded_vec_def)
  have l: "length (vector_add_dbl v w) = n"
    using len by (auto simp: vector_add_dbl_def)
  have cell: "rounded_sum (image_mset (\<lambda>x. x ! i) (M + N)) (vector_add_dbl v w ! i)" if "i < n" for i
  proof -
    from that len have "v \<noteq> []" by auto
    with that len have nth: "vector_add_dbl v w ! i = plus_dbl (v ! i) (w ! i)"
      by (simp add: vector_add_dbl_def)
    from v w that have "rounded_sum (image_mset (\<lambda>x. x ! i) M) (v ! i)"
      "rounded_sum (image_mset (\<lambda>x. x ! i) N) (w ! i)"
      by (simp_all add: rounded_vec_def)
    from rounded_sum_add [OF _ _ this plus_dbl_error] ne show ?thesis
      by (simp add: nth)
  qed
  from v w l cell ne show ?thesis by (auto simp: rounded_vec_def)
qed

lemma square_size: "square n m \<Longrightarrow> 0 < n \<Longrightarrow> matrix_size m \<noteq> 0"
  by (cases m) (auto simp: square_def matrix_size_def)

lemma rounded_mat_single: "square n x \<Longrightarrow> rounded_mat n {#x#} x"
  by (simp add: rounded_mat_def rounded_sum_single)

lemma rounded_mat_add:
  assumes v: "rounded_mat n M v" and w: "rounded_mat n N w"
  shows "rounded_mat n (M + N) (density_add_dbl v w)"
proof (cases "n = 0")
  case True
  with v w have "v = []" "w = []" by (simp_all add: rounded_mat_def square_def)
  with v w True show ?thesis by (auto simp: rounded_mat_def square_def)
next
  case False
  from v w have sq: "square n v" "square n w" and ne: "M \<noteq> {#}" "N \<noteq> {#}"
    by (simp_all add: rounded_mat_def)
  from square_size [OF sq(1)] False have eq: "density_add_dbl v w = matrix_add_dbl v w"
    by (simp add: density_add_dbl_def)
  from sq have len: "length v = n" "length w = n"
    and rows: "\<And>i. i < n \<Longrightarrow> length (v ! i) = n" "\<And>i. i < n \<Longrightarrow> length (w ! i) = n"
    by (simp_all add: square_def)
  have s: "square n (matrix_add_dbl v w)"
    using sq
    by (auto simp: square_def matrix_add_dbl_def dest!: set_zip_leftD set_zip_rightD elim!: in_set_zipE)
  have cell: "rounded_sum (image_mset (\<lambda>x. x ! i ! j) (M + N)) (matrix_add_dbl v w ! i ! j)"
    if "i < n" "j < n" for i j
  proof -
    from that len rows have nth: "matrix_add_dbl v w ! i ! j = cplus_dbl (v ! i ! j) (w ! i ! j)"
      by (simp add: matrix_add_dbl_def)
    from v w that have "rounded_sum (image_mset (\<lambda>x. x ! i ! j) M) (v ! i ! j)"
      "rounded_sum (image_mset (\<lambda>x. x ! i ! j) N) (w ! i ! j)"
      by (simp_all add: rounded_mat_def)
    from rounded_sum_add [OF _ _ this cplus_dbl_error] ne show ?thesis
      by (simp add: nth)
  qed
  from v w s cell ne show ?thesis by (auto simp: rounded_mat_def eq)
qed

lemma rket_add_dbl_lookup:
  "fmlookup (rket_add_dbl a b) k =
     (case fmlookup b k of None \<Rightarrow> fmlookup a k | Some v \<Rightarrow> Some (plus_dbl (map_at a k 0) v))"
  unfolding rket_add_dbl_def
  by (simp add: fold_entries_lookup [OF distinct_entries])

lemma is_double_round [simp]: "is_double (round_double x)"
  by (simp add: is_double_def round_double_idem)

lemma plus_dbl_zero: "is_double x \<Longrightarrow> plus_dbl 0 x = x"
  by (simp add: plus_dbl_def is_double_def)

lemma rounded_ket_single: "fmpred (\<lambda>_. is_double) x \<Longrightarrow> rounded_ket {#x#} x"
  by (auto simp: rounded_ket_def rounded_sum_single split: option.splits)

lemma rounded_ket_new:
  assumes "rounded_ket N w"
  shows "rket_add_dbl fmempty w = w"
proof (rule fmap_ext)
  fix k
  show "fmlookup (rket_add_dbl fmempty w) k = fmlookup w k"
  proof (cases "fmlookup w k")
    case None
    then show ?thesis by (simp add: rket_add_dbl_lookup)
  next
    case (Some v)
    with assms have "is_double v"
      by (auto simp: rounded_ket_def split: option.splits dest: spec [of _ k])
    with Some show ?thesis by (simp add: rket_add_dbl_lookup map_at_def plus_dbl_zero)
  qed
qed

lemma rounded_ket_add:
  assumes v: "rounded_ket M v" and w: "rounded_ket N w"
  shows "rounded_ket (M + N) (rket_add_dbl v w)"
  unfolding rounded_ket_def
proof (intro conjI allI)
  from v show "M + N \<noteq> {#}" by (simp add: rounded_ket_def)
  from v w show "\<forall>x \<in># M + N. fmpred (\<lambda>_. is_double) x" by (auto simp: rounded_ket_def)
  fix k
  let ?M = "present (image_mset (\<lambda>x. fmlookup x k) M)"
  let ?N = "present (image_mset (\<lambda>x. fmlookup x k) N)"
  have split: "present (image_mset (\<lambda>x. fmlookup x k) (M + N)) = ?M + ?N" by simp
  from v have vk: "case fmlookup v k of None \<Rightarrow> ?M = {#}
      | Some a \<Rightarrow> ?M \<noteq> {#} \<and> is_double a \<and> rounded_sum ?M a"
    by (simp add: rounded_ket_def)
  from w have wk: "case fmlookup w k of None \<Rightarrow> ?N = {#}
      | Some b \<Rightarrow> ?N \<noteq> {#} \<and> is_double b \<and> rounded_sum ?N b"
    by (simp add: rounded_ket_def)
  show "case fmlookup (rket_add_dbl v w) k of
          None \<Rightarrow> present (image_mset (\<lambda>x. fmlookup x k) (M + N)) = {#}
        | Some a \<Rightarrow> present (image_mset (\<lambda>x. fmlookup x k) (M + N)) \<noteq> {#} \<and> is_double a \<and>
                    rounded_sum (present (image_mset (\<lambda>x. fmlookup x k) (M + N))) a"
  proof (cases "fmlookup w k")
    case None
    with vk wk show ?thesis
      by (auto simp: rket_add_dbl_lookup split: option.splits)
  next
    case wb: (Some b)
    with wk have b: "?N \<noteq> {#}" "is_double b" "rounded_sum ?N b" by simp_all
    show ?thesis
    proof (cases "fmlookup v k")
      case None
      with vk have "?M = {#}" by simp
      with None wb b show ?thesis
        by (simp add: rket_add_dbl_lookup map_at_def plus_dbl_zero)
    next
      case va: (Some a)
      with vk have a: "?M \<noteq> {#}" "rounded_sum ?M a" by simp_all
      from rounded_sum_add [OF a(1) b(1) a(2) b(3) plus_dbl_error]
      have "rounded_sum (?M + ?N) (plus_dbl a b)" .
      with va wb a show ?thesis
        by (simp add: rket_add_dbl_lookup map_at_def plus_dbl_def)
    qed
  qed
qed

subsection \<open>One shot and one merge in double arithmetic, sum by sum\<close>

lemma add_entries_density_add_dbl:
  "fmlookup (add_entries (\<lambda>rho w. density_add_dbl rho (g w)) [] other mine) l =
     oadd density_add_dbl [] (fmlookup mine l) (map_option g (fmlookup other l))"
  by (rule add_entries_oadd_map)

lemma add_entries_vector_add_dbl:
  "fmlookup (add_entries (\<lambda>pr w. vector_add_dbl pr (g w)) [] other mine) l =
     oadd vector_add_dbl [] (fmlookup mine l) (map_option g (fmlookup other l))"
  by (rule add_entries_oadd_map)

lemma add_entries_rket_add_dbl:
  "fmlookup (add_entries (\<lambda>r w. rket_add_dbl r (g w)) fmempty other mine) l =
     oadd rket_add_dbl fmempty (fmlookup mine l) (map_option g (fmlookup other l))"
  by (rule add_entries_oadd_map)

lemma compute_results_dbl_density:
  "fmlookup (snapshots_density (engine_of (compute_results_dbl v s e))) l =
     oadd density_add_dbl [] (fmlookup (snapshots_density e) l) (contrib_density_dbl e s l)"
proof (cases rule: compute_results_dbl_cases [where v=v and s=s and e=e])
  case skip
  then show ?thesis by (simp add: contrib_density_dbl_def)
next
  case plain
  then show ?thesis
    by (simp add: contrib_density_dbl_def compute_density_dbl_density add_entries_density_add_dbl)
next
  case inner
  then show ?thesis
    by (simp add: contrib_density_dbl_def compute_inner_dbl_frame compute_density_dbl_density
        add_entries_density_add_dbl)
qed

lemma compute_results_dbl_probs:
  "fmlookup (snapshots_probs (engine_of (compute_results_dbl v s e))) l =
     oadd vector_add_dbl [] (fmlookup (snapshots_probs e) l) (contrib_probs_dbl e s l)"
proof (cases rule: compute_results_dbl_cases [where v=v and s=s and e=e])
  case skip
  then show ?thesis by (simp add: contrib_probs_dbl_def)
next
  case plain
  then show ?thesis
    by (simp add: contrib_probs_dbl_def compute_probs_dbl_probs add_entries_vector_add_dbl)
next
  case inner
  then show ?thesis
    by (simp add: contrib_probs_dbl_def compute_inner_dbl_frame compute_probs_dbl_probs
        add_entries_vector_add_dbl)
qed

lemma compute_results_dbl_probs_ket:
  "fmlookup (snapshots_probs_ket (engine_of (compute_results_dbl v s e))) l =
     oadd rket_add_dbl fmempty (fmlookup (snapshots_probs_ket e) l)
       (contrib_probs_ket_dbl v e s l)"
proof (cases rule: compute_results_dbl_cases [where v=v and s=s and e=e])
  case skip
  then show ?thesis by (simp add: contrib_probs_ket_dbl_def)
next
  case plain
  then show ?thesis
    by (simp add: contrib_probs_ket_dbl_def compute_ket_dbl_probs_ket add_entries_rket_add_dbl)
next
  case inner
  then show ?thesis
    by (simp add: contrib_probs_ket_dbl_def compute_inner_dbl_frame compute_ket_dbl_probs_ket
        add_entries_rket_add_dbl)
qed

lemma compute_results_dbl_overlaps:
  assumes "compute_results_dbl v s e = Inr e'"
  shows "fmlookup (snapshots_overlaps e') l =
     oadd vector_add_dbl [] (fmlookup (snapshots_overlaps e) l) (contrib_overlaps_dbl e s l)"
proof (cases rule: compute_results_dbl_cases [where v=v and s=s and e=e])
  case skip
  with assms show ?thesis by (simp add: contrib_overlaps_dbl_def)
next
  case plain
  with assms show ?thesis by (auto simp: contrib_overlaps_dbl_def)
next
  case inner
  let ?e3 = "compute_probs_dbl s (compute_density_dbl s (compute_ket_dbl v
      (if show_snapshots_ket e \<or> show_snapshots_probs_ket e then map snd (rev (qubit_sizes s)) else [])
      s e))"
  let ?xs = "sorted_list_of_fmap (qreg_snapshots s)"
  have "\<not> shot_throws e s"
    using compute_results_dbl_throws [of v s e] assms by simp
  with inner have ok: "list_all (\<lambda>(l, psi). sizes_match (target_states ?e3) psi) ?xs"
    by (simp add: shot_throws_def)
  from compute_inner_dbl_ok [OF ok, of "length (qreg s)"] inner(4) assms
  have "snapshots_overlaps e' =
       (if show_snapshots_overlaps e
        then add_entries (\<lambda>mine psi. vector_add_dbl mine
               (get_probs_vec_dbl (inprods_of_dbl (epsilon e) (target_states e) psi)))
               [] (qreg_snapshots s) (snapshots_overlaps e)
        else snapshots_overlaps e)"
    by (auto simp: add_entries_def)
  with inner show ?thesis
    by (simp add: contrib_overlaps_dbl_def add_entries_vector_add_dbl)
qed

lemma contrib_dbl_same_config:
  assumes "same_config a b"
  shows "contrib_density_dbl a s l = contrib_density_dbl b s l"
    and "contrib_probs_dbl a s l = contrib_probs_dbl b s l"
    and "contrib_probs_ket_dbl v a s l = contrib_probs_ket_dbl v b s l"
    and "contrib_overlaps_dbl a s l = contrib_overlaps_dbl b s l"
  using assms
  by (simp_all add: same_config_def contrib_density_dbl_def contrib_probs_dbl_def
      contrib_probs_ket_dbl_def contrib_overlaps_dbl_def)

lemma add_dbl_lookups:
  "fmlookup (snapshots_density (VectorEngine_add_dbl a b)) l =
     oadd density_add_dbl [] (fmlookup (snapshots_density a) l) (fmlookup (snapshots_density b) l)"
  "fmlookup (snapshots_probs (VectorEngine_add_dbl a b)) l =
     oadd vector_add_dbl [] (fmlookup (snapshots_probs a) l) (fmlookup (snapshots_probs b) l)"
  "fmlookup (snapshots_probs_ket (VectorEngine_add_dbl a b)) l =
     oadd rket_add_dbl fmempty (fmlookup (snapshots_probs_ket a) l)
       (fmlookup (snapshots_probs_ket b) l)"
  "fmlookup (snapshots_overlaps (VectorEngine_add_dbl a b)) l =
     oadd vector_add_dbl [] (fmlookup (snapshots_overlaps a) l) (fmlookup (snapshots_overlaps b) l)"
  by (simp_all add: add_entries_oadd)

subsection \<open>Runs and plans in double arithmetic\<close>

text \<open>One sum at a time: after a run of shots the entry of a label is a rounded sum of
  what it was made of before and of the summands of the shots.\<close>

lemma run_shots_dbl_sum:
  fixes fld :: "VectorEngine \<Rightarrow> (uint_t, 'a) fmap"
    and c :: "VectorEngine \<Rightarrow> Shot \<Rightarrow> uint_t \<Rightarrow> 'a option"
  assumes leaf: "\<And>x. good x \<Longrightarrow> ap {#x#} x"
    and comb: "\<And>M N v w. ap M v \<Longrightarrow> ap N w \<Longrightarrow> ap (M + N) (f v w)"
    and new: "\<And>N w. ap N w \<Longrightarrow> f d w = w"
    and step: "\<And>s e e'. compute_results_dbl v s e = Inr e' \<Longrightarrow>
                 fmlookup (fld e') l = oadd f d (fmlookup (fld e) l) (c e s l)"
    and cfg: "\<And>a b s. same_config a b \<Longrightarrow> c a s l = c b s l"
  shows "run_shots_dbl v ss e = Inr e' \<Longrightarrow> sum_of ap M0 (fmlookup (fld e) l) \<Longrightarrow>
         \<forall>s \<in> set ss. opred good (c e s l) \<Longrightarrow>
         sum_of ap (M0 + summands (c e) ss l) (fmlookup (fld e') l)"
proof (induction ss arbitrary: e M0)
  case Nil
  then show ?case by simp
next
  case (Cons s ss)
  from Cons.prems(1) obtain e1 where e1: "compute_results_dbl v s e = Inr e1"
    and r: "run_shots_dbl v ss e1 = Inr e'"
    by (auto split: sum.splits)
  from compute_results_dbl_config [of v s e] e1 have sc: "same_config e1 e" by simp
  have ceq: "c e1 t l = c e t l" for t by (rule cfg [OF sc])
  from Cons.prems(3) have "opred good (c e s l)" by simp
  then have one: "sum_of ap (present {#c e s l#}) (c e s l)"
    by (cases "c e s l") (simp_all add: leaf)
  have "sum_of ap (M0 + present {#c e s l#}) (fmlookup (fld e1) l)"
    unfolding step [OF e1]
    by (rule sum_of_oadd [where ap = ap and f = f and d = d, OF comb new Cons.prems(2) one])
  moreover from Cons.prems(3) have "\<forall>s \<in> set ss. opred good (c e1 s l)" by (simp add: ceq)
  ultimately have "sum_of ap (M0 + present {#c e s l#} + summands (c e1) ss l)
      (fmlookup (fld e') l)"
    by (rule Cons.IH [OF r])
  moreover have "summands (c e1) ss l = summands (c e) ss l"
    by (simp add: summands_def ceq)
  ultimately show ?case by (simp add: ac_simps)
qed

lemma run_plan_dbl_config: "run_plan_dbl v cfg p = Inr e \<Longrightarrow> same_config e cfg"
proof (induction p arbitrary: e)
  case (Group g)
  then show ?case by (auto split: sum.splits dest: run_shots_dbl_config)
next
  case (Merge a b)
  then obtain ea eb where "run_plan_dbl v cfg a = Inr ea" "e = VectorEngine_add_dbl ea eb"
    by (auto split: sum.splits)
  with same_config_trans [OF VectorEngine_add_dbl_config(1) [of ea eb] Merge.IH(1) [of ea]]
  show ?case by simp
qed

lemma run_plan_dbl_sum:
  fixes fld :: "VectorEngine \<Rightarrow> (uint_t, 'a) fmap"
    and c :: "VectorEngine \<Rightarrow> Shot \<Rightarrow> uint_t \<Rightarrow> 'a option"
  assumes leaf: "\<And>x. good x \<Longrightarrow> ap {#x#} x"
    and comb: "\<And>M N v w. ap M v \<Longrightarrow> ap N w \<Longrightarrow> ap (M + N) (f v w)"
    and new: "\<And>N w. ap N w \<Longrightarrow> f d w = w"
    and step: "\<And>s e e'. compute_results_dbl v s e = Inr e' \<Longrightarrow>
                 fmlookup (fld e') l = oadd f d (fmlookup (fld e) l) (c e s l)"
    and cfg: "\<And>a b s. same_config a b \<Longrightarrow> c a s l = c b s l"
    and merge: "\<And>a b. fmlookup (fld (VectorEngine_add_dbl a b)) l =
                  oadd f d (fmlookup (fld a) l) (fmlookup (fld b) l)"
    and empty: "fld cfg0 = fmempty"
  shows "run_plan_dbl v cfg0 p = Inr e' \<Longrightarrow>
         \<forall>s \<in> set (shots_of p). opred good (c cfg0 s l) \<Longrightarrow>
         sum_of ap (summands (c cfg0) (shots_of p) l) (fmlookup (fld e') l)"
proof (induction p arbitrary: e')
  case (Group g)
  then have r: "run_shots_dbl v g cfg0 = Inr e'" by (auto split: sum.splits)
  have "sum_of ap {#} (fmlookup (fld cfg0) l)" by (simp add: empty)
  from run_shots_dbl_sum [where fld = fld and c = c and l = l and f = f and ap = ap
      and good = good and d = d, OF leaf comb new step cfg r this] Group.prems(2)
  show ?case by simp
next
  case (Merge a b)
  from Merge.prems(1) obtain ea eb where ea: "run_plan_dbl v cfg0 a = Inr ea"
    and eb: "run_plan_dbl v cfg0 b = Inr eb" and e': "e' = VectorEngine_add_dbl ea eb"
    by (auto split: sum.splits)
  from Merge.prems(2) have qa: "\<forall>s \<in> set (shots_of a). opred good (c cfg0 s l)"
    and qb: "\<forall>s \<in> set (shots_of b). opred good (c cfg0 s l)" by simp_all
  from sum_of_oadd [where ap = ap and f = f and d = d,
      OF comb new Merge.IH(1) [OF ea qa] Merge.IH(2) [OF eb qb]]
  show ?case by (simp add: e' merge)
qed

text \<open>A run on one engine and a plan with the same shots leave rounded sums of the same
  summands.\<close>

lemma direct_and_plan_dbl:
  fixes fld :: "VectorEngine \<Rightarrow> (uint_t, 'a) fmap"
    and c :: "VectorEngine \<Rightarrow> Shot \<Rightarrow> uint_t \<Rightarrow> 'a option"
  assumes leaf: "\<And>x. good x \<Longrightarrow> ap {#x#} x"
    and comb: "\<And>M N v w. ap M v \<Longrightarrow> ap N w \<Longrightarrow> ap (M + N) (f v w)"
    and new: "\<And>N w. ap N w \<Longrightarrow> f d w = w"
    and step: "\<And>s e e' l. compute_results_dbl v s e = Inr e' \<Longrightarrow>
                 fmlookup (fld e') l = oadd f d (fmlookup (fld e) l) (c e s l)"
    and cfg: "\<And>a b s l. same_config a b \<Longrightarrow> c a s l = c b s l"
    and merge: "\<And>a b l. fmlookup (fld (VectorEngine_add_dbl a b)) l =
                  oadd f d (fmlookup (fld a) l) (fmlookup (fld b) l)"
    and empty: "fld cfg0 = fmempty"
    and q: "\<And>s l. s \<in> set shots \<Longrightarrow> opred good (c cfg0 s l)"
    and perm: "mset (shots_of p) = mset shots"
    and direct: "run_shots_dbl v shots cfg0 = Inr e1"
    and plan: "run_plan_dbl v cfg0 p = Inr e2"
  shows "sum_of ap (summands (c cfg0) shots l) (fmlookup (fld e1) l) \<and>
         sum_of ap (summands (c cfg0) shots l) (fmlookup (fld e2) l)"
proof
  have "sum_of ap {#} (fmlookup (fld cfg0) l)" by (simp add: empty)
  from run_shots_dbl_sum [where fld = fld and c = c and l = l and f = f and ap = ap
      and good = good and d = d, OF leaf comb new step cfg direct this] q
  show "sum_of ap (summands (c cfg0) shots l) (fmlookup (fld e1) l)" by simp
  have seteq: "set (shots_of p) = set shots"
    using perm by (metis set_mset_mset)
  from run_plan_dbl_sum [where fld = fld and c = c and l = l and f = f and ap = ap
      and good = good and d = d, OF leaf comb new step cfg merge empty plan] q seteq
  have "sum_of ap (summands (c cfg0) (shots_of p) l) (fmlookup (fld e2) l)" by simp
  then show "sum_of ap (summands (c cfg0) shots l) (fmlookup (fld e2) l)"
    by (simp add: summands_mset [OF perm])
qed

subsection \<open>The summands of a shot\<close>

lemma square_outer_product_dbl: "length psi = n \<Longrightarrow> square n (outer_product_dbl psi psi)"
  by (auto simp: square_def outer_product_dbl_def)

lemma is_double_get_probs_dbl [simp]: "is_double (get_probs_dbl val)"
  by (simp add: get_probs_dbl_def ctimes_dbl_def minus_dbl_def)

lemma fmpred_get_probs_ket_dbl: "fmpred (\<lambda>_. is_double) (get_probs_ket_dbl ket)"
proof -
  have "fmpred (\<lambda>_. is_double) m0 \<Longrightarrow>
    fmpred (\<lambda>_. is_double) (fold (\<lambda>(k, elt) ret. fmupd k (get_probs_dbl elt) ret) xs m0)"
    for xs :: "(string \<times> complex) list" and m0
  proof (induction xs arbitrary: m0)
    case Nil
    then show ?case by simp
  next
    case (Cons x xs)
    obtain k elt where x: "x = (k, elt)" by (cases x)
    from Cons.prems have "fmpred (\<lambda>_. is_double) (fmupd k (get_probs_dbl elt) m0)"
      by (intro fmpred_upd) simp_all
    from Cons.IH [OF this] show ?case by (simp add: x)
  qed
  then show ?thesis by (simp add: get_probs_ket_dbl_def)
qed

lemma contrib_dbl_good:
  "shot_dim n s \<Longrightarrow> opred (square n) (contrib_density_dbl cfg s l)"
  "shot_dim n s \<Longrightarrow> opred (\<lambda>v. length v = n) (contrib_probs_dbl cfg s l)"
  "opred (fmpred (\<lambda>_. is_double)) (contrib_probs_ket_dbl v cfg s l)"
  "opred (\<lambda>v. length v = length (target_states cfg)) (contrib_overlaps_dbl cfg s l)"
  by (auto simp: contrib_density_dbl_def contrib_probs_dbl_def contrib_probs_ket_dbl_def
      contrib_overlaps_dbl_def shot_dim_def opred_def square_outer_product_dbl
      fmpred_get_probs_ket_dbl split: option.splits)

lemma norm_real_abs: "(norm :: real \<Rightarrow> real) = abs"
  by (rule ext) simp

text \<open>Two rounded sums of the same summands are close, element by element.\<close>

lemma rounded_vec_close:
  assumes "rounded_vec n M v" "rounded_vec n M w" "i < n"
  shows "\<bar>v ! i - w ! i\<bar> \<le>
    2 * roundoff_bound (size M) * sum_mset (image_mset (\<lambda>x. \<bar>x ! i\<bar>) M)"
proof -
  from assms have "rounded_sum (image_mset (\<lambda>x. x ! i) M) (v ! i)"
    "rounded_sum (image_mset (\<lambda>x. x ! i) M) (w ! i)"
    by (simp_all add: rounded_vec_def)
  from rounded_sum_close [OF this] show ?thesis
    by (simp add: image_mset.compositionality comp_def)
qed

lemma rounded_mat_close:
  assumes "rounded_mat n M v" "rounded_mat n M w" "i < n" "j < n"
  shows "cmod (v ! i ! j - w ! i ! j) \<le>
    2 * roundoff_bound (size M) * sum_mset (image_mset (\<lambda>x. cmod (x ! i ! j)) M)"
proof -
  from assms have "rounded_sum (image_mset (\<lambda>x. x ! i ! j) M) (v ! i ! j)"
    "rounded_sum (image_mset (\<lambda>x. x ! i ! j) M) (w ! i ! j)"
    by (simp_all add: rounded_mat_def)
  from rounded_sum_close [OF this] show ?thesis
    by (simp add: image_mset.compositionality comp_def)
qed

lemma rounded_ket_close:
  assumes v: "rounded_ket M v" and w: "rounded_ket M w"
    and x: "fmlookup v k = Some x" and y: "fmlookup w k = Some y"
  shows "\<bar>x - y\<bar> \<le>
    2 * roundoff_bound (size (present (image_mset (\<lambda>r. fmlookup r k) M))) *
      sum_mset (image_mset abs (present (image_mset (\<lambda>r. fmlookup r k) M)))"
proof -
  from v x have "rounded_sum (present (image_mset (\<lambda>r. fmlookup r k) M)) x"
    by (auto simp: rounded_ket_def split: option.splits dest: spec [of _ k])
  moreover from w y have "rounded_sum (present (image_mset (\<lambda>r. fmlookup r k) M)) y"
    by (auto simp: rounded_ket_def split: option.splits dest: spec [of _ k])
  ultimately show ?thesis
    using rounded_sum_close [of "present (image_mset (\<lambda>r. fmlookup r k) M)" x y]
    by (simp add: norm_real_abs)
qed

text \<open>The equations that evaluate a shot in double arithmetic on a small input.\<close>

lemma rd_numerals:
  "round_double (1 / 18014398509481984) = 1 / 18014398509481984"
  "round_double (1 / 9007199254740992) = 1 / 9007199254740992"
  "round_double (3 / 18014398509481984) = 3 / 18014398509481984"
  "round_double (18014398509481985 / 18014398509481984) = 1"
  "round_double (18014398509481987 / 18014398509481984) = 4503599627370497 / 4503599627370496"
  using rd_values by simp_all

lemmas eval_dbl_defs = compute_results_dbl_def compute_ket_dbl_def compute_density_dbl_def
  compute_probs_dbl_def add_entries_def entries_single entries_empty example_shot_def
  VectorEngine_new_def map_at_def vector_add_dbl_def get_probs_vec_dbl_def get_probs_dbl_def
  ctimes_dbl_def times_dbl_def plus_dbl_def minus_dbl_def VectorEngine_add_dbl_def Let_def
  rd_values(1-4) rd_numerals

section \<open>The claims\<close>

text \<open>C1. Merge partition-invariance, as amended. Take an engine without results, shots
  whose state vectors all have \<open>n\<close> amplitudes, and any plan whose groups hold the same
  shots, in any order and nested in any way, all in double arithmetic. If the run of all
  the shots on one engine throws, the plan throws too. Otherwise the plan ends as well,
  and for every label the density sums, the probability sums, the probability-ket sums
  and the overlap sums of the two engines have the same entries of the same sizes, and
  each number in them is a rounded sum of the same summands, those of the shots with the
  label: it differs from their exact sum by at most \<open>(1 + 2^-53)^(k-1) - 1\<close> times the
  sum of their absolute values, \<open>k\<close> being the number of the summands. So the numbers of
  the merged engine and of the one engine differ by at most twice that.\<close>

theorem merge_partition_invariance:
  assumes fresh: "no_results cfg"
    and dims: "\<forall>s \<in> set shots. shot_dim n s"
    and part: "mset (shots_of p) = mset shots"
  shows "case run_shots_dbl vec2ket shots cfg of
           Inl _ \<Rightarrow> isl (run_plan_dbl vec2ket cfg p)
         | Inr direct \<Rightarrow>
             (\<exists>merged. run_plan_dbl vec2ket cfg p = Inr merged \<and>
                (\<forall>l. sum_of (rounded_mat n)
                       (summands (contrib_density_dbl cfg) shots l)
                       (fmlookup (snapshots_density direct) l) \<and>
                     sum_of (rounded_mat n)
                       (summands (contrib_density_dbl cfg) shots l)
                       (fmlookup (snapshots_density merged) l)) \<and>
                (\<forall>l. sum_of (rounded_vec n)
                       (summands (contrib_probs_dbl cfg) shots l)
                       (fmlookup (snapshots_probs direct) l) \<and>
                     sum_of (rounded_vec n)
                       (summands (contrib_probs_dbl cfg) shots l)
                       (fmlookup (snapshots_probs merged) l)) \<and>
                (\<forall>l. sum_of rounded_ket
                       (summands (contrib_probs_ket_dbl vec2ket cfg) shots l)
                       (fmlookup (snapshots_probs_ket direct) l) \<and>
                     sum_of rounded_ket
                       (summands (contrib_probs_ket_dbl vec2ket cfg) shots l)
                       (fmlookup (snapshots_probs_ket merged) l)) \<and>
                (\<forall>l. sum_of (rounded_vec (length (target_states cfg)))
                       (summands (contrib_overlaps_dbl cfg) shots l)
                       (fmlookup (snapshots_overlaps direct) l) \<and>
                     sum_of (rounded_vec (length (target_states cfg)))
                       (summands (contrib_overlaps_dbl cfg) shots l)
                       (fmlookup (snapshots_overlaps merged) l)) \<and>
                (\<forall>l a b i j. fmlookup (snapshots_density direct) l = Some a \<and>
                     fmlookup (snapshots_density merged) l = Some b \<and> i < n \<and> j < n \<longrightarrow>
                   cmod (a ! i ! j - b ! i ! j) \<le>
                     2 * roundoff_bound (size (summands (contrib_density_dbl cfg) shots l)) *
                       sum_mset (image_mset (\<lambda>x. cmod (x ! i ! j))
                         (summands (contrib_density_dbl cfg) shots l))) \<and>
                (\<forall>l a b i. fmlookup (snapshots_probs direct) l = Some a \<and>
                     fmlookup (snapshots_probs merged) l = Some b \<and> i < n \<longrightarrow>
                   \<bar>a ! i - b ! i\<bar> \<le>
                     2 * roundoff_bound (size (summands (contrib_probs_dbl cfg) shots l)) *
                       sum_mset (image_mset (\<lambda>x. \<bar>x ! i\<bar>)
                         (summands (contrib_probs_dbl cfg) shots l))) \<and>
                (\<forall>l a b k x y. fmlookup (snapshots_probs_ket direct) l = Some a \<and>
                     fmlookup (snapshots_probs_ket merged) l = Some b \<and>
                     fmlookup a k = Some x \<and> fmlookup b k = Some y \<longrightarrow>
                   \<bar>x - y\<bar> \<le>
                     2 * roundoff_bound (size (present (image_mset (\<lambda>r. fmlookup r k)
                           (summands (contrib_probs_ket_dbl vec2ket cfg) shots l)))) *
                       sum_mset (image_mset abs (present (image_mset (\<lambda>r. fmlookup r k)
                           (summands (contrib_probs_ket_dbl vec2ket cfg) shots l))))) \<and>
                (\<forall>l a b i. fmlookup (snapshots_overlaps direct) l = Some a \<and>
                     fmlookup (snapshots_overlaps merged) l = Some b \<and>
                     i < length (target_states cfg) \<longrightarrow>
                   \<bar>a ! i - b ! i\<bar> \<le>
                     2 * roundoff_bound (size (summands (contrib_overlaps_dbl cfg) shots l)) *
                       sum_mset (image_mset (\<lambda>x. \<bar>x ! i\<bar>)
                         (summands (contrib_overlaps_dbl cfg) shots l))))"
proof (cases "run_shots_dbl vec2ket shots cfg")
  case (Inl x)
  have "set (shots_of p) = set shots" using part by (metis set_mset_mset)
  with run_shots_dbl_throws [of vec2ket shots cfg] run_plan_dbl_throws [of vec2ket cfg p] Inl
  show ?thesis by simp
next
  case (Inr direct)
  have seteq: "set (shots_of p) = set shots" using part by (metis set_mset_mset)
  with run_shots_dbl_throws [of vec2ket shots cfg] run_plan_dbl_throws [of vec2ket cfg p] Inr
  have "\<not> isl (run_plan_dbl vec2ket cfg p)" by simp
  then obtain merged where merged: "run_plan_dbl vec2ket cfg p = Inr merged"
    by (cases "run_plan_dbl vec2ket cfg p") auto
  have step_d: "\<And>s e e' l. compute_results_dbl vec2ket s e = Inr e' \<Longrightarrow>
      fmlookup (snapshots_density e') l =
        oadd density_add_dbl [] (fmlookup (snapshots_density e) l) (contrib_density_dbl e s l)"
    using compute_results_dbl_density [of vec2ket] by (metis engine_of_simps(2))
  have step_p: "\<And>s e e' l. compute_results_dbl vec2ket s e = Inr e' \<Longrightarrow>
      fmlookup (snapshots_probs e') l =
        oadd vector_add_dbl [] (fmlookup (snapshots_probs e) l) (contrib_probs_dbl e s l)"
    using compute_results_dbl_probs [of vec2ket] by (metis engine_of_simps(2))
  have step_k: "\<And>s e e' l. compute_results_dbl vec2ket s e = Inr e' \<Longrightarrow>
      fmlookup (snapshots_probs_ket e') l =
        oadd rket_add_dbl fmempty (fmlookup (snapshots_probs_ket e) l)
          (contrib_probs_ket_dbl vec2ket e s l)"
    using compute_results_dbl_probs_ket [of vec2ket] by (metis engine_of_simps(2))
  have d: "sum_of (rounded_mat n) (summands (contrib_density_dbl cfg) shots l)
             (fmlookup (snapshots_density direct) l) \<and>
           sum_of (rounded_mat n) (summands (contrib_density_dbl cfg) shots l)
             (fmlookup (snapshots_density merged) l)" for l
    using fresh dims
    by (intro direct_and_plan_dbl [where fld = snapshots_density and c = contrib_density_dbl
          and f = density_add_dbl and d = "[]" and good = "square n",
          OF rounded_mat_single rounded_mat_add density_add_dbl_Nil step_d
             contrib_dbl_same_config(1) add_dbl_lookups(1) _ _ part Inr merged])
       (auto simp: no_results_def contrib_dbl_good)
  have p: "sum_of (rounded_vec n) (summands (contrib_probs_dbl cfg) shots l)
             (fmlookup (snapshots_probs direct) l) \<and>
           sum_of (rounded_vec n) (summands (contrib_probs_dbl cfg) shots l)
             (fmlookup (snapshots_probs merged) l)" for l
    using fresh dims
    by (intro direct_and_plan_dbl [where fld = snapshots_probs and c = contrib_probs_dbl
          and f = vector_add_dbl and d = "[]" and good = "\<lambda>v. length v = n",
          OF rounded_vec_single rounded_vec_add vector_add_dbl_Nil step_p
             contrib_dbl_same_config(2) add_dbl_lookups(2) _ _ part Inr merged])
       (auto simp: no_results_def contrib_dbl_good)
  have k: "sum_of rounded_ket (summands (contrib_probs_ket_dbl vec2ket cfg) shots l)
             (fmlookup (snapshots_probs_ket direct) l) \<and>
           sum_of rounded_ket (summands (contrib_probs_ket_dbl vec2ket cfg) shots l)
             (fmlookup (snapshots_probs_ket merged) l)" for l
    using fresh
    by (intro direct_and_plan_dbl [where fld = snapshots_probs_ket
          and c = "contrib_probs_ket_dbl vec2ket" and f = rket_add_dbl and d = fmempty
          and good = "fmpred (\<lambda>_. is_double)",
          OF rounded_ket_single rounded_ket_add rounded_ket_new step_k
             contrib_dbl_same_config(3) add_dbl_lookups(3) _ _ part Inr merged])
       (auto simp: no_results_def contrib_dbl_good)
  have o: "sum_of (rounded_vec (length (target_states cfg)))
             (summands (contrib_overlaps_dbl cfg) shots l)
             (fmlookup (snapshots_overlaps direct) l) \<and>
           sum_of (rounded_vec (length (target_states cfg)))
             (summands (contrib_overlaps_dbl cfg) shots l)
             (fmlookup (snapshots_overlaps merged) l)" for l
    using fresh
    by (intro direct_and_plan_dbl [where fld = snapshots_overlaps and c = contrib_overlaps_dbl
          and f = vector_add_dbl and d = "[]"
          and good = "\<lambda>v. length v = length (target_states cfg)",
          OF rounded_vec_single rounded_vec_add vector_add_dbl_Nil compute_results_dbl_overlaps
             contrib_dbl_same_config(4) add_dbl_lookups(4) _ _ part Inr merged])
       (auto simp: no_results_def contrib_dbl_good)
  have sd: "(\<forall>l. sum_of (rounded_mat n)
             (summands (contrib_density_dbl cfg) shots l)
             (fmlookup (snapshots_density direct) l) \<and>
           sum_of (rounded_mat n)
             (summands (contrib_density_dbl cfg) shots l)
             (fmlookup (snapshots_density merged) l))"
    using d by blast
  have sp: "(\<forall>l. sum_of (rounded_vec n)
             (summands (contrib_probs_dbl cfg) shots l)
             (fmlookup (snapshots_probs direct) l) \<and>
           sum_of (rounded_vec n)
             (summands (contrib_probs_dbl cfg) shots l)
             (fmlookup (snapshots_probs merged) l))"
    using p by blast
  have sk: "(\<forall>l. sum_of rounded_ket
             (summands (contrib_probs_ket_dbl vec2ket cfg) shots l)
             (fmlookup (snapshots_probs_ket direct) l) \<and>
           sum_of rounded_ket
             (summands (contrib_probs_ket_dbl vec2ket cfg) shots l)
             (fmlookup (snapshots_probs_ket merged) l))"
    using k by blast
  have so: "(\<forall>l. sum_of (rounded_vec (length (target_states cfg)))
             (summands (contrib_overlaps_dbl cfg) shots l)
             (fmlookup (snapshots_overlaps direct) l) \<and>
           sum_of (rounded_vec (length (target_states cfg)))
             (summands (contrib_overlaps_dbl cfg) shots l)
             (fmlookup (snapshots_overlaps merged) l))"
    using o by blast
  have cd: "(\<forall>l a b i j. fmlookup (snapshots_density direct) l = Some a \<and>
           fmlookup (snapshots_density merged) l = Some b \<and> i < n \<and> j < n \<longrightarrow>
         cmod (a ! i ! j - b ! i ! j) \<le>
           2 * roundoff_bound (size (summands (contrib_density_dbl cfg) shots l)) *
             sum_mset (image_mset (\<lambda>x. cmod (x ! i ! j))
               (summands (contrib_density_dbl cfg) shots l)))"
  proof (intro allI impI, elim conjE)
    fix l a b i j
    assume "fmlookup (snapshots_density direct) l = Some a"
      "fmlookup (snapshots_density merged) l = Some b" "i < n" "j < n"
    with d [of l] show "cmod (a ! i ! j - b ! i ! j) \<le>
        2 * roundoff_bound (size (summands (contrib_density_dbl cfg) shots l)) *
          sum_mset (image_mset (\<lambda>x. cmod (x ! i ! j))
            (summands (contrib_density_dbl cfg) shots l))"
      by (auto intro: rounded_mat_close)
  qed
  have cp: "(\<forall>l a b i. fmlookup (snapshots_probs direct) l = Some a \<and>
           fmlookup (snapshots_probs merged) l = Some b \<and> i < n \<longrightarrow>
         \<bar>a ! i - b ! i\<bar> \<le>
           2 * roundoff_bound (size (summands (contrib_probs_dbl cfg) shots l)) *
             sum_mset (image_mset (\<lambda>x. \<bar>x ! i\<bar>)
               (summands (contrib_probs_dbl cfg) shots l)))"
  proof (intro allI impI, elim conjE)
    fix l a b i
    assume "fmlookup (snapshots_probs direct) l = Some a"
      "fmlookup (snapshots_probs merged) l = Some b" "i < n"
    with p [of l] show "\<bar>a ! i - b ! i\<bar> \<le>
        2 * roundoff_bound (size (summands (contrib_probs_dbl cfg) shots l)) *
          sum_mset (image_mset (\<lambda>x. \<bar>x ! i\<bar>)
            (summands (contrib_probs_dbl cfg) shots l))"
      by (auto intro: rounded_vec_close)
  qed
  have ck: "(\<forall>l a b k x y. fmlookup (snapshots_probs_ket direct) l = Some a \<and>
           fmlookup (snapshots_probs_ket merged) l = Some b \<and>
           fmlookup a k = Some x \<and> fmlookup b k = Some y \<longrightarrow>
         \<bar>x - y\<bar> \<le>
           2 * roundoff_bound (size (present (image_mset (\<lambda>r. fmlookup r k)
                 (summands (contrib_probs_ket_dbl vec2ket cfg) shots l)))) *
             sum_mset (image_mset abs (present (image_mset (\<lambda>r. fmlookup r k)
                 (summands (contrib_probs_ket_dbl vec2ket cfg) shots l)))))"
  proof (intro allI impI, elim conjE)
    fix l a b k x y
    assume "fmlookup (snapshots_probs_ket direct) l = Some a"
      "fmlookup (snapshots_probs_ket merged) l = Some b"
      "fmlookup a k = Some x" "fmlookup b k = Some y"
    with k [of l] show "\<bar>x - y\<bar> \<le>
        2 * roundoff_bound (size (present (image_mset (\<lambda>r. fmlookup r k)
              (summands (contrib_probs_ket_dbl vec2ket cfg) shots l)))) *
          sum_mset (image_mset abs (present (image_mset (\<lambda>r. fmlookup r k)
              (summands (contrib_probs_ket_dbl vec2ket cfg) shots l))))"
      by (auto intro: rounded_ket_close)
  qed
  have co: "(\<forall>l a b i. fmlookup (snapshots_overlaps direct) l = Some a \<and>
           fmlookup (snapshots_overlaps merged) l = Some b \<and>
           i < length (target_states cfg) \<longrightarrow>
         \<bar>a ! i - b ! i\<bar> \<le>
           2 * roundoff_bound (size (summands (contrib_overlaps_dbl cfg) shots l)) *
             sum_mset (image_mset (\<lambda>x. \<bar>x ! i\<bar>)
               (summands (contrib_overlaps_dbl cfg) shots l)))"
  proof (intro allI impI, elim conjE)
    fix l a b i
    assume "fmlookup (snapshots_overlaps direct) l = Some a"
      "fmlookup (snapshots_overlaps merged) l = Some b" "i < length (target_states cfg)"
    with o [of l] show "\<bar>a ! i - b ! i\<bar> \<le>
        2 * roundoff_bound (size (summands (contrib_overlaps_dbl cfg) shots l)) *
          sum_mset (image_mset (\<lambda>x. \<bar>x ! i\<bar>)
            (summands (contrib_overlaps_dbl cfg) shots l))"
      by (auto intro: rounded_vec_close)
  qed
  show ?thesis
    unfolding Inr sum.case
    by (intro exI [of _ merged] conjI; fact merged sd sp sk so cd cp ck co)
qed

text \<open>The claim as stated fails: double addition rounds, and the sums depend on the order
  of the additions. Take the probabilities of a shot with the snapshot \<open>[1, 0]\<close> and of
  three shots with the snapshot \<open>[2^-27, 1]\<close>, whose probabilities are \<open>[2^-54, 1]\<close>.
  On one engine each addition of \<open>2^-54\<close> to 1 rounds back to 1. On an engine of their
  own the three shots add up to \<open>3 * 2^-54\<close> without rounding, and the merge gives
  \<open>1 + 3 * 2^-54\<close> rounded, which is \<open>1 + 2^-52\<close>.\<close>

theorem merge_partition_invariance_counterexample:
  "no_results (VectorEngine_new 2\<lparr>show_snapshots_probs := True\<rparr>) \<and>
   shot_dim 2 (example_shot 1 0) \<and> shot_dim 2 tiny_shot \<and>
   mset (shots_of (Merge (Group [example_shot 1 0]) (Group [tiny_shot, tiny_shot, tiny_shot]))) =
     mset [example_shot 1 0, tiny_shot, tiny_shot, tiny_shot] \<and>
   run_shots_dbl example_vec2ket [example_shot 1 0, tiny_shot, tiny_shot, tiny_shot]
     (VectorEngine_new 2\<lparr>show_snapshots_probs := True\<rparr>) =
     Inr (VectorEngine_new 2\<lparr>show_snapshots_probs := True,
            snapshots_probs := fmupd 0 [1, 3] fmempty\<rparr>) \<and>
   run_plan_dbl example_vec2ket (VectorEngine_new 2\<lparr>show_snapshots_probs := True\<rparr>)
     (Merge (Group [example_shot 1 0]) (Group [tiny_shot, tiny_shot, tiny_shot])) =
     Inr (VectorEngine_new 2\<lparr>show_snapshots_probs := True,
            snapshots_probs := fmupd 0 [1 + 1 / 2 ^ 52, 3] fmempty\<rparr>) \<and>
   snapshots_probs (VectorEngine_new 2\<lparr>show_snapshots_probs := True,
            snapshots_probs := fmupd 0 [1, 3] fmempty\<rparr>) \<noteq>
   snapshots_probs (VectorEngine_new 2\<lparr>show_snapshots_probs := True,
            snapshots_probs := fmupd 0 [1 + 1 / 2 ^ 52, 3] fmempty\<rparr>)"
proof -
  have "fmlookup (fmupd (0 :: nat) [1 :: real, 3] fmempty) 0 \<noteq>
      fmlookup (fmupd 0 [1 + 1 / 2 ^ 52, 3] fmempty) 0" by simp
  then have neq: "fmupd (0 :: nat) [1 :: real, 3] fmempty \<noteq> fmupd 0 [1 + 1 / 2 ^ 52, 3] fmempty"
    by metis
  have dims: "shot_dim 2 (example_shot 1 0)" "shot_dim 2 tiny_shot"
    by (simp_all add: shot_dim_def example_shot_def tiny_shot_def fmpred_single)
  show ?thesis
    using neq dims by (simp add: eval_dbl_defs no_results_def tiny_shot_def)
qed

text \<open>The same shots and the same plan satisfy the amended claim: both numbers are
  rounded sums of the four summands, and they differ by no more than the bound.\<close>

theorem merge_partition_invariance_witness:
  "no_results (VectorEngine_new 2\<lparr>show_snapshots_probs := True\<rparr>) \<and>
   shot_dim 2 (example_shot 1 0) \<and> shot_dim 2 tiny_shot \<and>
   mset (shots_of (Merge (Group [example_shot 1 0]) (Group [tiny_shot, tiny_shot, tiny_shot]))) =
     mset [example_shot 1 0, tiny_shot, tiny_shot, tiny_shot] \<and>
   run_shots_dbl example_vec2ket [example_shot 1 0, tiny_shot, tiny_shot, tiny_shot]
     (VectorEngine_new 2\<lparr>show_snapshots_probs := True\<rparr>) =
     Inr (VectorEngine_new 2\<lparr>show_snapshots_probs := True,
            snapshots_probs := fmupd 0 [1, 3] fmempty\<rparr>) \<and>
   run_plan_dbl example_vec2ket (VectorEngine_new 2\<lparr>show_snapshots_probs := True\<rparr>)
     (Merge (Group [example_shot 1 0]) (Group [tiny_shot, tiny_shot, tiny_shot])) =
     Inr (VectorEngine_new 2\<lparr>show_snapshots_probs := True,
            snapshots_probs := fmupd 0 [1 + 1 / 2 ^ 52, 3] fmempty\<rparr>) \<and>
   summands (contrib_probs_dbl (VectorEngine_new 2\<lparr>show_snapshots_probs := True\<rparr>))
     [example_shot 1 0, tiny_shot, tiny_shot, tiny_shot] 0 =
     {#[1, 0], [1 / 2 ^ 54, 1], [1 / 2 ^ 54, 1], [1 / 2 ^ 54, 1]#} \<and>
   rounded_vec 2 {#[1, 0], [1 / 2 ^ 54, 1], [1 / 2 ^ 54, 1], [1 / 2 ^ 54, 1]#} [1, 3] \<and>
   rounded_vec 2 {#[1, 0], [1 / 2 ^ 54, 1], [1 / 2 ^ 54, 1], [1 / 2 ^ 54, 1]#}
     [1 + 1 / 2 ^ 52, 3] \<and>
   \<bar>1 - (1 + 1 / 2 ^ 52)\<bar> \<le> 2 * roundoff_bound 4 * (1 + 3 / 2 ^ 54 :: real)"
proof -
  let ?cfg = "VectorEngine_new 2\<lparr>show_snapshots_probs := True\<rparr>"
  let ?shots = "[example_shot 1 0, tiny_shot, tiny_shot, tiny_shot]"
  let ?plan = "Merge (Group [example_shot 1 0]) (Group [tiny_shot, tiny_shot, tiny_shot])"
  let ?M = "{#[1, 0], [1 / 2 ^ 54, 1], [1 / 2 ^ 54, 1], [1 / 2 ^ 54 :: real, 1]#}"
  have fresh: "no_results ?cfg" by (simp add: no_results_def VectorEngine_new_def)
  have dims1: "shot_dim 2 (example_shot 1 0)" "shot_dim 2 tiny_shot"
    by (simp_all add: shot_dim_def example_shot_def tiny_shot_def fmpred_single)
  then have dims: "\<forall>s \<in> set ?shots. shot_dim 2 s" by simp
  have part: "mset (shots_of ?plan) = mset ?shots" by simp
  have run_d: "run_shots_dbl example_vec2ket ?shots ?cfg =
      Inr (?cfg\<lparr>snapshots_probs := fmupd 0 [1, 3] fmempty\<rparr>)"
    by (simp add: eval_dbl_defs tiny_shot_def)
  have run_p: "run_plan_dbl example_vec2ket ?cfg ?plan =
      Inr (?cfg\<lparr>snapshots_probs := fmupd 0 [1 + 1 / 2 ^ 52, 3] fmempty\<rparr>)"
    by (simp add: eval_dbl_defs tiny_shot_def)
  have terms: "summands (contrib_probs_dbl ?cfg) ?shots 0 = ?M"
    by (simp add: contrib_probs_dbl_def eval_dbl_defs tiny_shot_def)
  from merge_partition_invariance [OF fresh dims part, of example_vec2ket]
  have all: "(\<forall>l. sum_of (rounded_vec 2) (summands (contrib_probs_dbl ?cfg) ?shots l)
                 (fmlookup (fmupd 0 [1, 3] fmempty) l) \<and>
               sum_of (rounded_vec 2) (summands (contrib_probs_dbl ?cfg) ?shots l)
                 (fmlookup (fmupd 0 [1 + 1 / 2 ^ 52, 3] fmempty) l)) \<and>
             (\<forall>l a b i. fmlookup (fmupd 0 [1, 3] fmempty) l = Some a \<and>
                 fmlookup (fmupd 0 [1 + 1 / 2 ^ 52, 3] fmempty) l = Some b \<and> i < 2 \<longrightarrow>
               \<bar>a ! i - b ! i\<bar> \<le>
                 2 * roundoff_bound (size (summands (contrib_probs_dbl ?cfg) ?shots l)) *
                   sum_mset (image_mset (\<lambda>x. \<bar>x ! i\<bar>)
                     (summands (contrib_probs_dbl ?cfg) ?shots l)))"
    unfolding run_d run_p sum.case by simp
  from all have "sum_of (rounded_vec 2) ?M (fmlookup (fmupd 0 [1, 3] fmempty) (0 :: nat)) \<and>
      sum_of (rounded_vec 2) ?M (fmlookup (fmupd 0 [1 + 1 / 2 ^ 52, 3] fmempty) (0 :: nat))"
    unfolding terms [symmetric] by blast
  then have r: "rounded_vec 2 ?M [1, 3]" "rounded_vec 2 ?M [1 + 1 / 2 ^ 52, 3]" by simp_all
  from all have "\<bar>[1, 3 :: real] ! 0 - [1 + 1 / 2 ^ 52, 3] ! 0\<bar> \<le>
      2 * roundoff_bound (size ?M) * sum_mset (image_mset (\<lambda>x. \<bar>x ! 0\<bar>) ?M)"
    unfolding terms [symmetric] by (elim conjE allE [of _ "0 :: nat"] allE [of _ "[1, 3 :: real]"]
      allE [of _ "[1 + 1 / 2 ^ 52, 3 :: real]"]) simp
  moreover have "Suc (Suc (Suc (Suc 0))) = 4" by simp
  ultimately have c: "\<bar>1 - (1 + 1 / 2 ^ 52)\<bar> \<le> 2 * roundoff_bound 4 * (1 + 3 / 2 ^ 54 :: real)"
    by simp
  from fresh dims1 part run_d run_p terms r c show ?thesis by simp
qed

text \<open>C2. Size-mismatch failure, as amended. Take a compute call in which the snapshot
  block runs, the inner-product or the overlap selector is on, the shot has a snapshot,
  all its state vectors have \<open>m\<close> amplitudes and \<open>vec\<close> is the first target state of
  another size. The call throws the size error with the size of \<open>vec\<close> and \<open>m\<close>, and the
  inner-product lists and the overlap sums are then as they were before the call.\<close>

theorem size_mismatch_fails:
  assumes ne: "\<not> snapshots_empty s"
    and on: "show_snapshots_inner_product this \<or> show_snapshots_overlaps this"
    and some: "qreg_snapshots s \<noteq> fmempty"
    and dims: "shot_dim m s"
    and bad: "find (\<lambda>vec. length vec \<noteq> m) (target_states this) = Some vec"
  shows "\<exists>e'. compute_results vec2ket s this = Inl (TargetStateSize (length vec) m, e') \<and>
           snapshots_inprods e' = snapshots_inprods this \<and>
           snapshots_overlaps e' = snapshots_overlaps this"
proof (cases rule: compute_results_cases [where v=vec2ket and s=s and e=this])
  case skip
  with ne show ?thesis by simp
next
  case plain
  from bad have "target_states this \<noteq> []" by auto
  with plain on show ?thesis by simp
next
  case inner
  let ?e3 = "compute_probs s (compute_density s (compute_ket vec2ket
      (if show_snapshots_ket this \<or> show_snapshots_probs_ket this
       then map snd (rev (qubit_sizes s)) else []) s this))"
  from some obtain l psi rest where xs: "sorted_list_of_fmap (qreg_snapshots s) = (l, psi) # rest"
    by (cases "sorted_list_of_fmap (qreg_snapshots s)") (auto simp: entries_Nil_iff)
  then have "(l, psi) \<in> set (sorted_list_of_fmap (qreg_snapshots s))" by simp
  then have "fmlookup (qreg_snapshots s) l = Some psi" by (simp add: entries_lookup)
  with dims have len: "length psi = m" and q: "length (qreg s) = m"
    by (auto simp: shot_dim_def)
  from bad have nm: "\<not> sizes_match (target_states this) psi"
    by (auto simp: sizes_match_def list_all_iff len find_Some_iff)
  from compute_inprods_fail [OF nm, of "epsilon this" m "[]"] bad len
  have "compute_inprods (epsilon this) m psi (target_states this) [] =
          Inl (TargetStateSize (length vec) m)" by auto
  with inner(4) xs q have "compute_results vec2ket s this = Inl (TargetStateSize (length vec) m, ?e3)"
    by simp
  then show ?thesis by simp
qed

text \<open>The claim as stated fails: with both selectors off, a call with a target state of
  one amplitude and a snapshot of two ends without an error.\<close>

theorem size_mismatch_counterexample:
  "length [1 :: complex] \<noteq> length (qreg (example_shot 1 0)) \<and>
   fmlookup (qreg_snapshots (example_shot 1 0)) 0 = Some [1, 0] \<and>
   compute_results example_vec2ket (example_shot 1 0)
       (VectorEngine_new 2\<lparr>target_states := [[1]]\<rparr>) =
     Inr (VectorEngine_new 2\<lparr>target_states := [[1]]\<rparr>)"
  by (simp add: eval_defs)

theorem size_mismatch_fails_witness:
  "\<not> snapshots_empty (example_shot 1 0) \<and>
   show_snapshots_overlaps (VectorEngine_new 2\<lparr>show_snapshots_overlaps := True, target_states := [[1]]\<rparr>) \<and>
   qreg_snapshots (example_shot 1 0) \<noteq> fmempty \<and>
   shot_dim 2 (example_shot 1 0) \<and>
   find (\<lambda>vec. length vec \<noteq> 2)
     (target_states (VectorEngine_new 2\<lparr>show_snapshots_overlaps := True, target_states := [[1]]\<rparr>)) = Some [1] \<and>
   (\<exists>e'. compute_results example_vec2ket (example_shot 1 0)
            (VectorEngine_new 2\<lparr>show_snapshots_overlaps := True, target_states := [[1]]\<rparr>) =
          Inl (TargetStateSize 1 2, e') \<and>
        snapshots_inprods e' = fmempty \<and> snapshots_overlaps e' = fmempty)"
proof -
  let ?cfg = "VectorEngine_new 2\<lparr>show_snapshots_overlaps := True, target_states := [[1]]\<rparr>"
  have 1: "\<not> snapshots_empty (example_shot 1 0)" by (simp add: example_shot_def)
  have 2: "show_snapshots_inner_product ?cfg \<or> show_snapshots_overlaps ?cfg" by simp
  have 3: "qreg_snapshots (example_shot 1 0) \<noteq> fmempty"
    by (simp add: example_shot_def)
  have 4: "shot_dim 2 (example_shot 1 0)"
    by (simp add: shot_dim_def example_shot_def fmpred_single)
  have 5: "find (\<lambda>vec. length vec \<noteq> 2) (target_states ?cfg) = Some [1]" by simp
  from size_mismatch_fails [OF 1 2 3 4 5, of example_vec2ket] 1 3 4 5
  show ?thesis by simp
qed

text \<open>C3. Renormalization scope. For an engine with a positive number of shots, each
  of the density, probability, probability-ket and overlap fields that \<open>to_json\<close> writes
  is the sum of the engine, entry by entry, scaled by one over the number of shots and
  then chopped; the ket field and the inner-product field are the lists of the engine
  as they are, whatever the number of shots.\<close>

theorem renormalization_scope:
  assumes "0 < total_shots eng"
  shows
   "(show_snapshots_density eng \<and> snapshots_density eng \<noteq> fmempty \<longrightarrow>
       density_matrix (fst (to_json js eng)) =
         Some (fmmap (\<lambda>m. chop_cmatrix (epsilon eng) (matrix_scale m (1 / real (total_shots eng))))
                 (snapshots_density eng))) \<and>
    (show_snapshots_probs eng \<and> snapshots_probs eng \<noteq> fmempty \<longrightarrow>
       probabilities (fst (to_json js eng)) =
         Some (fmmap (\<lambda>v. chop_rvector (epsilon eng) (vector_scale v (1 / real (total_shots eng))))
                 (snapshots_probs eng))) \<and>
    (show_snapshots_probs_ket eng \<and> snapshots_probs_ket eng \<noteq> fmempty \<longrightarrow>
       probabilities_ket (fst (to_json js eng)) =
         Some (fmmap (\<lambda>k. chop_rket (epsilon eng) (rket_scale k (1 / real (total_shots eng))))
                 (snapshots_probs_ket eng))) \<and>
    (show_snapshots_overlaps eng \<and> snapshots_overlaps eng \<noteq> fmempty \<longrightarrow>
       overlaps (fst (to_json js eng)) =
         Some (fmmap (\<lambda>v. chop_rvector (epsilon eng) (vector_scale v (1 / real (total_shots eng))))
                 (snapshots_overlaps eng))) \<and>
    (show_snapshots_ket eng \<and> snapshots_ket eng \<noteq> [] \<longrightarrow>
       quantum_state_ket (fst (to_json js eng)) = Some (snapshots_ket eng)) \<and>
    (show_snapshots_inner_product eng \<and> snapshots_inprods eng \<noteq> fmempty \<longrightarrow>
       inner_products (fst (to_json js eng)) = Some (snapshots_inprods eng)) \<and>
    quantum_state_ket (fst (to_json js (eng\<lparr>total_shots := n\<rparr>))) =
      quantum_state_ket (fst (to_json js eng)) \<and>
    inner_products (fst (to_json js (eng\<lparr>total_shots := n\<rparr>))) =
      inner_products (fst (to_json js eng))"
  by (simp add: to_json_def Let_def)

theorem renormalization_scope_witness:
  "0 < total_shots example_engine \<and>
   show_snapshots_density example_engine \<and> snapshots_density example_engine \<noteq> fmempty \<and>
   show_snapshots_probs example_engine \<and> snapshots_probs example_engine \<noteq> fmempty \<and>
   show_snapshots_probs_ket example_engine \<and> snapshots_probs_ket example_engine \<noteq> fmempty \<and>
   show_snapshots_overlaps example_engine \<and> snapshots_overlaps example_engine \<noteq> fmempty \<and>
   show_snapshots_ket example_engine \<and> snapshots_ket example_engine \<noteq> [] \<and>
   show_snapshots_inner_product example_engine \<and> snapshots_inprods example_engine \<noteq> fmempty \<and>
   density_matrix (fst (to_json json_null example_engine)) = Some (fmupd 0 [[1, 0], [0, 0]] fmempty) \<and>
   probabilities (fst (to_json json_null example_engine)) = Some (fmupd 0 [1, 0] fmempty) \<and>
   probabilities_ket (fst (to_json json_null example_engine)) =
     Some (fmupd 0 (fmupd [] 1 fmempty) fmempty) \<and>
   overlaps (fst (to_json json_null example_engine)) = Some (fmupd 0 [1] fmempty) \<and>
   quantum_state_ket (fst (to_json json_null example_engine)) =
     Some [fmupd 0 (fmupd [] 1 fmempty) fmempty, fmupd 0 (fmupd [] 1 fmempty) fmempty] \<and>
   inner_products (fst (to_json json_null example_engine)) = Some (fmupd 0 [[1], [1]] fmempty)"
proof -
  have pos: "0 < total_shots example_engine" by (simp add: example_engine_def)
  have maps: "fmmap f (fmupd k v fmempty) = fmupd k (f v) fmempty"
    for f :: "'a \<Rightarrow> 'b" and k :: nat and v
    by (rule fmap_ext) simp
  have kets: "fmmap f (fmupd k v fmempty) = fmupd k (f v) fmempty"
    for f :: "'a \<Rightarrow> 'b" and k :: string and v
    by (rule fmap_ext) simp
  have flags: "show_snapshots_density example_engine" "show_snapshots_probs example_engine"
    "show_snapshots_probs_ket example_engine" "show_snapshots_overlaps example_engine"
    "show_snapshots_ket example_engine" "show_snapshots_inner_product example_engine"
    by (simp_all add: example_engine_def)
  have data: "snapshots_density example_engine \<noteq> fmempty"
    "snapshots_probs example_engine \<noteq> fmempty" "snapshots_probs_ket example_engine \<noteq> fmempty"
    "snapshots_overlaps example_engine \<noteq> fmempty" "snapshots_ket example_engine \<noteq> []"
    "snapshots_inprods example_engine \<noteq> fmempty"
    by (simp_all add: example_engine_def)
  have d: "fmmap (\<lambda>m. chop_cmatrix (epsilon example_engine)
               (matrix_scale m (1 / real (total_shots example_engine))))
             (snapshots_density example_engine) = fmupd 0 [[1, 0], [0, 0]] fmempty"
    by (simp add: example_engine_def maps chop_cmatrix_def chop_complex_def chop_real_def
        matrix_scale_def Complex_one_zero)
  have p: "fmmap (\<lambda>v. chop_rvector (epsilon example_engine)
               (vector_scale v (1 / real (total_shots example_engine))))
             (snapshots_probs example_engine) = fmupd 0 [1, 0] fmempty"
    by (simp add: example_engine_def maps chop_rvector_def chop_real_def vector_scale_def)
  have k: "fmmap (\<lambda>k. chop_rket (epsilon example_engine)
               (rket_scale k (1 / real (total_shots example_engine))))
             (snapshots_probs_ket example_engine) = fmupd 0 (fmupd [] 1 fmempty) fmempty"
    by (simp add: example_engine_def maps kets chop_rket_def chop_real_def rket_scale_def)
  have o: "fmmap (\<lambda>v. chop_rvector (epsilon example_engine)
               (vector_scale v (1 / real (total_shots example_engine))))
             (snapshots_overlaps example_engine) = fmupd 0 [1] fmempty"
    by (simp add: example_engine_def maps chop_rvector_def chop_real_def vector_scale_def)
  have l: "snapshots_ket example_engine =
             [fmupd 0 (fmupd [] 1 fmempty) fmempty, fmupd 0 (fmupd [] 1 fmempty) fmempty]"
    "snapshots_inprods example_engine = fmupd 0 [[1], [1]] fmempty"
    by (simp_all add: example_engine_def)
  from renormalization_scope [OF pos, of json_null 2] pos flags data
  show ?thesis by (simp add: d p k o l)
qed

text \<open>C4. Inner-product output chopping. For the engine that a plan of shots and merges
  leaves, started from a configured engine without results: the inner-product field of
  the document is the map of the inner-product lists of the engine, which is what
  chopping each of its values gives; every real and imaginary part below the threshold
  is zero; the field does not depend on the number of shots.\<close>

theorem inner_products_output_chopped:
  assumes fresh: "no_results cfg"
    and run: "run_plan vec2ket cfg p = Inr eng"
    and on: "show_snapshots_inner_product eng"
    and some: "snapshots_inprods eng \<noteq> fmempty"
  shows "inner_products (fst (to_json js eng)) = Some (snapshots_inprods eng) \<and>
         inner_products (fst (to_json js eng)) =
           Some (fmmap (map (chop_cvector (epsilon eng))) (snapshots_inprods eng)) \<and>
         (\<forall>l xss xs c. fmlookup (snapshots_inprods eng) l = Some xss \<and> xs \<in> set xss \<and>
            c \<in> set xs \<longrightarrow>
              (\<bar>Re c\<bar> < epsilon eng \<longrightarrow> Re c = 0) \<and> (\<bar>Im c\<bar> < epsilon eng \<longrightarrow> Im c = 0)) \<and>
         inner_products (fst (to_json js (eng\<lparr>total_shots := n\<rparr>))) =
           inner_products (fst (to_json js eng))"
proof -
  from run_plan_config [OF run] have eps: "epsilon eng = epsilon cfg"
    by (simp add: same_config_def)
  from inprods_chopped_plan [OF run fresh] eps
  have inv: "fmpred (\<lambda>_ xss. \<forall>xs \<in> set xss. \<forall>c \<in> set xs. chop_complex (epsilon eng) c = c)
     (snapshots_inprods eng)" by simp
  have out: "inner_products (fst (to_json js eng)) = Some (snapshots_inprods eng)"
    using on some by (simp add: to_json_def Let_def)
  have fixed: "fmmap (map (chop_cvector (epsilon eng))) (snapshots_inprods eng) =
             snapshots_inprods eng"
  proof (rule fmap_ext)
    fix l
    show "fmlookup (fmmap (map (chop_cvector (epsilon eng))) (snapshots_inprods eng)) l =
          fmlookup (snapshots_inprods eng) l"
    proof (cases "fmlookup (snapshots_inprods eng) l")
      case None
      then show ?thesis by simp
    next
      case (Some xss)
      with inv have "\<forall>xs \<in> set xss. \<forall>c \<in> set xs. chop_complex (epsilon eng) c = c"
        by auto
      then have "map (chop_cvector (epsilon eng)) xss = xss"
        by (simp add: chop_cvector_def map_idI)
      with Some show ?thesis by simp
    qed
  qed
  have comp: "\<forall>l xss xs c. fmlookup (snapshots_inprods eng) l = Some xss \<and> xs \<in> set xss \<and>
            c \<in> set xs \<longrightarrow>
              (\<bar>Re c\<bar> < epsilon eng \<longrightarrow> Re c = 0) \<and> (\<bar>Im c\<bar> < epsilon eng \<longrightarrow> Im c = 0)"
  proof (intro allI impI)
    fix l xss xs c
    assume "fmlookup (snapshots_inprods eng) l = Some xss \<and> xs \<in> set xss \<and> c \<in> set xs"
    with inv have "chop_complex (epsilon eng) c = c" by auto
    then show "(\<bar>Re c\<bar> < epsilon eng \<longrightarrow> Re c = 0) \<and> (\<bar>Im c\<bar> < epsilon eng \<longrightarrow> Im c = 0)"
      by (simp add: chop_complex_fixed)
  qed
  have nore: "inner_products (fst (to_json js (eng\<lparr>total_shots := n\<rparr>))) =
           inner_products (fst (to_json js eng))"
    by (simp add: to_json_def Let_def)
  from out fixed comp nore show ?thesis by simp
qed

theorem inner_products_output_chopped_witness:
  "no_results (VectorEngine_new 2\<lparr>show_snapshots_inner_product := True,
      target_states := [[1, 0]]\<rparr>) \<and>
   run_plan example_vec2ket
     (VectorEngine_new 2\<lparr>show_snapshots_inner_product := True, target_states := [[1, 0]]\<rparr>)
     (Merge (Group [example_shot 1 0]) (Group [example_shot 0 1])) =
     Inr (VectorEngine_new 2\<lparr>show_snapshots_inner_product := True, target_states := [[1, 0]],
            snapshots_inprods := fmupd 0 [[1], [0]] fmempty\<rparr>) \<and>
   show_snapshots_inner_product (VectorEngine_new 2\<lparr>show_snapshots_inner_product := True,
      target_states := [[1, 0]], snapshots_inprods := fmupd 0 [[1], [0]] fmempty\<rparr>) \<and>
   snapshots_inprods (VectorEngine_new 2\<lparr>show_snapshots_inner_product := True,
      target_states := [[1, 0]], snapshots_inprods := fmupd 0 [[1], [0]] fmempty\<rparr>) \<noteq> fmempty \<and>
   inner_products (fst (to_json json_null
     (VectorEngine_new 2\<lparr>show_snapshots_inner_product := True, target_states := [[1, 0]],
        snapshots_inprods := fmupd 0 [[1], [0]] fmempty\<rparr>))) = Some (fmupd 0 [[1], [0]] fmempty)"
proof -
  let ?cfg = "VectorEngine_new 2\<lparr>show_snapshots_inner_product := True,
      target_states := [[1, 0]]\<rparr>"
  let ?eng = "VectorEngine_new 2\<lparr>show_snapshots_inner_product := True,
      target_states := [[1, 0]], snapshots_inprods := fmupd 0 [[1], [0]] fmempty\<rparr>"
  have 1: "no_results ?cfg" by (simp add: no_results_def)
  have 2: "run_plan example_vec2ket ?cfg
     (Merge (Group [example_shot 1 0]) (Group [example_shot 0 1])) = Inr ?eng"
    by (simp add: eval_defs VectorEngine_add_def Complex_one_zero)
  have 3: "show_snapshots_inner_product ?eng" by simp
  have 4: "snapshots_inprods ?eng \<noteq> fmempty" by simp
  from inner_products_output_chopped [OF 1 2 3 4, of json_null] 1 2 show ?thesis
    by simp
qed

text \<open>C5. Order preservation under merge. However the merges of a row of engines are
  nested, the list of ket snapshots of the result is the concatenation of the lists of
  the engines, in their order, and so is, for every label, its list of inner products
  (an absent entry being an empty list).\<close>

theorem merge_order_preservation:
  "snapshots_ket (merge_all p) = concat (map snapshots_ket (engines_of p)) \<and>
   map_at (snapshots_inprods (merge_all p)) l [] =
     concat (map (\<lambda>e. map_at (snapshots_inprods e) l []) (engines_of p))"
  by (induction p) (simp_all add: add_entries_append_at)

text \<open>C6. Render purity and repeatability. The engine that a call of \<open>to_json\<close> leaves
  is the engine it got, in every field. A second call on the engine that the first call
  leaves writes the same document as the first, into the document that the first call
  started from as well as into the document that the first call has written.\<close>

theorem render_pure_and_repeatable:
  "snd (to_json js eng) = eng \<and>
   fst (to_json js (snd (to_json js eng))) = fst (to_json js eng) \<and>
   fst (to_json (fst (to_json js eng)) (snd (to_json js eng))) = fst (to_json js eng)"
proof -
  have pure: "snd (to_json js' eng) = eng" for js'
    by (simp add: to_json_def Let_def)
  have again: "fst (to_json (fst (to_json js eng)) eng) = fst (to_json js eng)"
    by (rule json_t.equality) (simp_all add: to_json_def Let_def)
  from pure again show ?thesis by simp
qed




text \<open>C8. Sparsity of accumulation, as amended. After a compute call, whether it threw or
  not: a structure whose selector is off is as before; when the guard of the snapshot
  block finds no snapshots (\<open>snapshots.empty()\<close>), all six are as before; the inner-product
  lists and the overlap sums are as before when there is no target state. When the shot
  hands over an empty map of snapshots, the five maps by label are as before, and the
  list of kets is as before but for one map without any label, appended exactly when the
  guard lets the block run and the ket selector is on.\<close>

theorem sparsity_of_accumulation:
  "(\<not> show_snapshots_ket this \<or> snapshots_empty s \<longrightarrow>
      snapshots_ket (engine_of (compute_results vec2ket s this)) = snapshots_ket this) \<and>
   (qreg_snapshots s = fmempty \<longrightarrow>
      snapshots_ket (engine_of (compute_results vec2ket s this)) =
        (if \<not> snapshots_empty s \<and> show_snapshots_ket this then snapshots_ket this @ [fmempty]
         else snapshots_ket this)) \<and>
   (\<not> show_snapshots_density this \<or> snapshots_empty s \<or> qreg_snapshots s = fmempty \<longrightarrow>
      snapshots_density (engine_of (compute_results vec2ket s this)) = snapshots_density this) \<and>
   (\<not> show_snapshots_probs this \<or> snapshots_empty s \<or> qreg_snapshots s = fmempty \<longrightarrow>
      snapshots_probs (engine_of (compute_results vec2ket s this)) = snapshots_probs this) \<and>
   (\<not> show_snapshots_probs_ket this \<or> snapshots_empty s \<or> qreg_snapshots s = fmempty \<longrightarrow>
      snapshots_probs_ket (engine_of (compute_results vec2ket s this)) =
        snapshots_probs_ket this) \<and>
   (\<not> show_snapshots_inner_product this \<or> snapshots_empty s \<or> target_states this = [] \<or>
    qreg_snapshots s = fmempty \<longrightarrow>
      snapshots_inprods (engine_of (compute_results vec2ket s this)) = snapshots_inprods this) \<and>
   (\<not> show_snapshots_overlaps this \<or> snapshots_empty s \<or> target_states this = [] \<or>
    qreg_snapshots s = fmempty \<longrightarrow>
      snapshots_overlaps (engine_of (compute_results vec2ket s this)) =
        snapshots_overlaps this)"
proof (intro conjI impI)
  assume "\<not> show_snapshots_ket this \<or> snapshots_empty s"
  then show "snapshots_ket (engine_of (compute_results vec2ket s this)) = snapshots_ket this"
    by (auto simp: compute_results_ket)
next
  assume "qreg_snapshots s = fmempty"
  then show "snapshots_ket (engine_of (compute_results vec2ket s this)) =
        (if \<not> snapshots_empty s \<and> show_snapshots_ket this then snapshots_ket this @ [fmempty]
         else snapshots_ket this)"
    by (simp add: compute_results_ket)
next
  assume a: "\<not> show_snapshots_density this \<or> snapshots_empty s \<or> qreg_snapshots s = fmempty"
  show "snapshots_density (engine_of (compute_results vec2ket s this)) = snapshots_density this"
  proof (rule fmap_ext)
    fix l
    from a have "contrib_density this s l = None" by (auto simp: contrib_density_def)
    then show "fmlookup (snapshots_density (engine_of (compute_results vec2ket s this))) l =
               fmlookup (snapshots_density this) l"
      by (simp add: compute_results_density)
  qed
next
  assume a: "\<not> show_snapshots_probs this \<or> snapshots_empty s \<or> qreg_snapshots s = fmempty"
  show "snapshots_probs (engine_of (compute_results vec2ket s this)) = snapshots_probs this"
  proof (rule fmap_ext)
    fix l
    from a have "contrib_probs this s l = None" by (auto simp: contrib_probs_def)
    then show "fmlookup (snapshots_probs (engine_of (compute_results vec2ket s this))) l =
               fmlookup (snapshots_probs this) l"
      by (simp add: compute_results_probs)
  qed
next
  assume a: "\<not> show_snapshots_probs_ket this \<or> snapshots_empty s \<or> qreg_snapshots s = fmempty"
  show "snapshots_probs_ket (engine_of (compute_results vec2ket s this)) =
        snapshots_probs_ket this"
  proof (rule fmap_ext)
    fix l
    from a have "contrib_probs_ket vec2ket this s l = None"
      by (auto simp: contrib_probs_ket_def)
    then show "fmlookup (snapshots_probs_ket (engine_of (compute_results vec2ket s this))) l =
               fmlookup (snapshots_probs_ket this) l"
      by (simp add: compute_results_probs_ket)
  qed
next
  assume "\<not> show_snapshots_inner_product this \<or> snapshots_empty s \<or> target_states this = [] \<or>
    qreg_snapshots s = fmempty"
  then show "snapshots_inprods (engine_of (compute_results vec2ket s this)) =
             snapshots_inprods this"
    by (rule compute_results_inprods_same)
next
  assume "\<not> show_snapshots_overlaps this \<or> snapshots_empty s \<or> target_states this = [] \<or>
    qreg_snapshots s = fmempty"
  then show "snapshots_overlaps (engine_of (compute_results vec2ket s this)) =
             snapshots_overlaps this"
    by (rule compute_results_overlaps_same)
qed

text \<open>The claim as stated fails when "no snapshots were captured" is read as the shot
  handing over an empty map of snapshots: the guard of the block reads another member,
  and with the ket selector on the list of kets of a new engine gets an entry.\<close>

theorem sparsity_of_accumulation_counterexample:
  "qreg_snapshots (example_shot 1 0\<lparr>qreg_snapshots := fmempty\<rparr>) = fmempty \<and>
   snapshots_ket (VectorEngine_new 2\<lparr>show_snapshots_ket := True\<rparr>) = [] \<and>
   snapshots_ket (engine_of (compute_results example_vec2ket
     (example_shot 1 0\<lparr>qreg_snapshots := fmempty\<rparr>)
     (VectorEngine_new 2\<lparr>show_snapshots_ket := True\<rparr>))) = [fmempty]"
  by (simp add: eval_defs)

theorem sparsity_of_accumulation_witness:
  "\<not> show_snapshots_ket (VectorEngine_new 2) \<and>
   \<not> show_snapshots_density (VectorEngine_new 2) \<and>
   \<not> show_snapshots_probs (VectorEngine_new 2) \<and>
   \<not> show_snapshots_probs_ket (VectorEngine_new 2) \<and>
   \<not> show_snapshots_inner_product (VectorEngine_new 2) \<and>
   \<not> show_snapshots_overlaps (VectorEngine_new 2) \<and>
   snapshots_ket (engine_of (compute_results example_vec2ket (example_shot 1 0)
     (VectorEngine_new 2))) = [] \<and>
   snapshots_density (engine_of (compute_results example_vec2ket (example_shot 1 0)
     (VectorEngine_new 2))) = fmempty \<and>
   snapshots_probs (engine_of (compute_results example_vec2ket (example_shot 1 0)
     (VectorEngine_new 2))) = fmempty \<and>
   snapshots_probs_ket (engine_of (compute_results example_vec2ket (example_shot 1 0)
     (VectorEngine_new 2))) = fmempty \<and>
   snapshots_inprods (engine_of (compute_results example_vec2ket (example_shot 1 0)
     (VectorEngine_new 2))) = fmempty \<and>
   snapshots_overlaps (engine_of (compute_results example_vec2ket (example_shot 1 0)
     (VectorEngine_new 2))) = fmempty \<and>
   snapshots_empty (example_shot 1 0\<lparr>snapshots_empty := True\<rparr>) \<and>
   snapshots_ket (engine_of (compute_results example_vec2ket
     (example_shot 1 0\<lparr>snapshots_empty := True\<rparr>)
     (VectorEngine_new 2\<lparr>show_snapshots_ket := True, show_snapshots_probs := True\<rparr>))) = [] \<and>
   snapshots_probs (engine_of (compute_results example_vec2ket
     (example_shot 1 0\<lparr>snapshots_empty := True\<rparr>)
     (VectorEngine_new 2\<lparr>show_snapshots_ket := True, show_snapshots_probs := True\<rparr>))) = fmempty \<and>
   target_states (VectorEngine_new 2\<lparr>show_snapshots_overlaps := True\<rparr>) = [] \<and>
   snapshots_overlaps (engine_of (compute_results example_vec2ket (example_shot 1 0)
     (VectorEngine_new 2\<lparr>show_snapshots_overlaps := True\<rparr>))) = fmempty \<and>
   qreg_snapshots (example_shot 1 0\<lparr>qreg_snapshots := fmempty\<rparr>) = fmempty \<and>
   snapshots_density (engine_of (compute_results example_vec2ket
     (example_shot 1 0\<lparr>qreg_snapshots := fmempty\<rparr>)
     (VectorEngine_new 2\<lparr>show_snapshots_density := True\<rparr>))) = fmempty \<and>
   snapshots_ket (engine_of (compute_results example_vec2ket
     (example_shot 1 0\<lparr>qreg_snapshots := fmempty\<rparr>)
     (VectorEngine_new 2\<lparr>show_snapshots_density := True\<rparr>))) = [] \<and>
   snapshots_ket (engine_of (compute_results example_vec2ket
     (example_shot 1 0\<lparr>qreg_snapshots := fmempty\<rparr>)
     (VectorEngine_new 2\<lparr>show_snapshots_ket := True\<rparr>))) = [fmempty] \<and>
   snapshots_probs_ket (engine_of (compute_results example_vec2ket
     (example_shot 1 0\<lparr>qreg_snapshots := fmempty\<rparr>)
     (VectorEngine_new 2\<lparr>show_snapshots_ket := True\<rparr>))) = fmempty"
  using
    sparsity_of_accumulation [where this = "VectorEngine_new 2\<lparr>show_snapshots_ket := True\<rparr>"
      and s = "example_shot 1 0\<lparr>qreg_snapshots := fmempty\<rparr>" and ?vec2ket = example_vec2ket]
    sparsity_of_accumulation [where this = "VectorEngine_new 2\<lparr>show_snapshots_density := True\<rparr>"
      and s = "example_shot 1 0\<lparr>qreg_snapshots := fmempty\<rparr>" and ?vec2ket = example_vec2ket]
    sparsity_of_accumulation [where this = "VectorEngine_new 2" and s = "example_shot 1 0"
      and ?vec2ket = example_vec2ket]
    sparsity_of_accumulation [where
      this = "VectorEngine_new 2\<lparr>show_snapshots_ket := True, show_snapshots_probs := True\<rparr>"
      and s = "example_shot 1 0\<lparr>snapshots_empty := True\<rparr>" and ?vec2ket = example_vec2ket]
    sparsity_of_accumulation [where this = "VectorEngine_new 2\<lparr>show_snapshots_overlaps := True\<rparr>"
      and s = "example_shot 1 0" and ?vec2ket = example_vec2ket]
  by (simp add: VectorEngine_new_def example_shot_def)

text \<open>C9. Permissive token parsing. After \<open>from_json\<close>, a selector is on exactly when
  a token of \<open>data\<close>, in lower case and trimmed, is one of its names in the table; a
  token that is none of the nine names leaves the engine as it is, and nothing fails.\<close>

theorem permissive_token_parsing:
  "(show_snapshots_ket (from_json renormalize js) \<longleftrightarrow>
      (\<exists>opt \<in> set (case js_data js of None \<Rightarrow> [] | Some opts \<Rightarrow> opts).
         string_trim (to_lowercase opt) = ''quantumstateket'' \<or>
         string_trim (to_lowercase opt) = ''quantumstatesket'')) \<and>
   (show_snapshots_density (from_json renormalize js) \<longleftrightarrow>
      (\<exists>opt \<in> set (case js_data js of None \<Rightarrow> [] | Some opts \<Rightarrow> opts).
         string_trim (to_lowercase opt) = ''densitymatrix'')) \<and>
   (show_snapshots_probs (from_json renormalize js) \<longleftrightarrow>
      (\<exists>opt \<in> set (case js_data js of None \<Rightarrow> [] | Some opts \<Rightarrow> opts).
         string_trim (to_lowercase opt) = ''probabilities'' \<or>
         string_trim (to_lowercase opt) = ''probs'')) \<and>
   (show_snapshots_probs_ket (from_json renormalize js) \<longleftrightarrow>
      (\<exists>opt \<in> set (case js_data js of None \<Rightarrow> [] | Some opts \<Rightarrow> opts).
         string_trim (to_lowercase opt) = ''probabilitiesket'' \<or>
         string_trim (to_lowercase opt) = ''probsket'')) \<and>
   (show_snapshots_inner_product (from_json renormalize js) \<longleftrightarrow>
      (\<exists>opt \<in> set (case js_data js of None \<Rightarrow> [] | Some opts \<Rightarrow> opts).
         string_trim (to_lowercase opt) = ''targetstatesinner'')) \<and>
   (show_snapshots_overlaps (from_json renormalize js) \<longleftrightarrow>
      (\<exists>opt \<in> set (case js_data js of None \<Rightarrow> [] | Some opts \<Rightarrow> opts).
         string_trim (to_lowercase opt) = ''targetstatesprobs'')) \<and>
   (string_trim (to_lowercase opt) \<notin>
      {''quantumstateket'', ''quantumstatesket'', ''densitymatrix'', ''probabilities'', ''probs'',
       ''probabilitiesket'', ''probsket'', ''targetstatesinner'', ''targetstatesprobs''} \<longrightarrow>
    from_json_option opt eng = eng)"
  using from_json_option_unknown [of opt eng]
  by (simp add: from_json_flags fold_from_json_option_flags VectorEngine_new_def)

theorem permissive_token_parsing_witness:
  "string_trim (to_lowercase '' Probs '') = ''probs'' \<and>
   string_trim (to_lowercase ''DensityMatrix'') = ''densitymatrix'' \<and>
   string_trim (to_lowercase ''bogus'') = ''bogus'' \<and>
   show_snapshots_probs (from_json id
     \<lparr>js_data = Some ['' Probs '', ''bogus'', ''DensityMatrix''], js_chop = None,
      js_qudit_dim = None, js_target_states = None, js_renorm_target_states = None\<rparr>) \<and>
   show_snapshots_density (from_json id
     \<lparr>js_data = Some ['' Probs '', ''bogus'', ''DensityMatrix''], js_chop = None,
      js_qudit_dim = None, js_target_states = None, js_renorm_target_states = None\<rparr>) \<and>
   \<not> show_snapshots_ket (from_json id
     \<lparr>js_data = Some ['' Probs '', ''bogus'', ''DensityMatrix''], js_chop = None,
      js_qudit_dim = None, js_target_states = None, js_renorm_target_states = None\<rparr>) \<and>
   \<not> show_snapshots_probs_ket (from_json id
     \<lparr>js_data = Some ['' Probs '', ''bogus'', ''DensityMatrix''], js_chop = None,
      js_qudit_dim = None, js_target_states = None, js_renorm_target_states = None\<rparr>) \<and>
   \<not> show_snapshots_inner_product (from_json id
     \<lparr>js_data = Some ['' Probs '', ''bogus'', ''DensityMatrix''], js_chop = None,
      js_qudit_dim = None, js_target_states = None, js_renorm_target_states = None\<rparr>) \<and>
   \<not> show_snapshots_overlaps (from_json id
     \<lparr>js_data = Some ['' Probs '', ''bogus'', ''DensityMatrix''], js_chop = None,
      js_qudit_dim = None, js_target_states = None, js_renorm_target_states = None\<rparr>) \<and>
   from_json_option ''bogus'' (VectorEngine_new 2) = VectorEngine_new 2"
proof -
  have 1: "string_trim (to_lowercase '' Probs '') = ''probs''" by code_simp
  have 2: "string_trim (to_lowercase ''DensityMatrix'') = ''densitymatrix''" by code_simp
  have 3: "string_trim (to_lowercase ''bogus'') = ''bogus''" by code_simp
  from permissive_token_parsing [of id
     "\<lparr>js_data = Some ['' Probs '', ''bogus'', ''DensityMatrix''], js_chop = None,
      js_qudit_dim = None, js_target_states = None, js_renorm_target_states = None\<rparr>"
     "''bogus''" "VectorEngine_new 2"] 1 2 3
  show ?thesis by simp
qed

text \<open>C10. Merge identity. Merging a newly constructed engine into an engine changes
  nothing, and merging an engine into a newly constructed one gives the six fields of
  results of that engine.\<close>

theorem merge_identity:
  "VectorEngine_add e (VectorEngine_new d) = e \<and>
   snapshots_ket (VectorEngine_add (VectorEngine_new d) e) = snapshots_ket e \<and>
   snapshots_density (VectorEngine_add (VectorEngine_new d) e) = snapshots_density e \<and>
   snapshots_probs (VectorEngine_add (VectorEngine_new d) e) = snapshots_probs e \<and>
   snapshots_probs_ket (VectorEngine_add (VectorEngine_new d) e) = snapshots_probs_ket e \<and>
   snapshots_overlaps (VectorEngine_add (VectorEngine_new d) e) = snapshots_overlaps e \<and>
   snapshots_inprods (VectorEngine_add (VectorEngine_new d) e) = snapshots_inprods e"
proof -
  have "VectorEngine_add e (VectorEngine_new d) = e"
    by (simp add: VectorEngine_add_def add_entries_empty_other)
  moreover have "add_entries density_add [] m fmempty = m" for m
    by (rule add_entries_empty_mine) simp
  moreover have "add_entries vector_add [] m fmempty = m" for m
    by (rule add_entries_empty_mine) simp
  moreover have "add_entries rket_add fmempty m fmempty = m" for m
    by (rule add_entries_empty_mine) simp
  moreover have "add_entries (\<lambda>mine theirs. mine @ theirs) [] m fmempty = m"
    for m :: "(uint_t, cvector_t list) fmap"
    by (rule add_entries_empty_mine) simp
  ultimately show ?thesis by simp
qed

end
